theory Spec2Isabelle
  imports Complex_Main "HOL-Library.AList" "HOL-Library.Multiset"
begin

chapter \<open>The model\<close>

section \<open>AudioQueueManager: ordered playback of synthesized sentences\<close>

text \<open>
  The class \<open>AudioQueueManager\<close> of the browser client (identical in both client
  versions). A decoded \<open>AudioBuffer\<close> is a payload with a duration in seconds. The JS
  \<open>Map\<close> held in \<open>this.queue\<close> is an association list with unique keys: \<open>has\<close>/\<open>get\<close>
  are \<open>map_of\<close>, \<open>set\<close> is \<open>AList.update\<close>, \<open>delete\<close> is \<open>AList.delete\<close>.

  Effects are explicit: \<open>started\<close> lists the buffer sources handed to
  \<open>source.start(startTime)\<close>, in call order, each with its start time;
  \<open>completionResolve\<close> holds the pending promise of \<open>waitForCompletion\<close> (promises are
  named by numbers) and \<open>resolved\<close> lists the promises the manager has resolved.
  \<open>audioContext.currentTime\<close> is the parameter \<open>now\<close> of every callback: it does not
  advance while one callback runs to completion.
\<close>

record audioBuffer =
  payload :: nat
  duration :: real

record aqm =
  queue :: "(nat \<times> audioBuffer) list"
  nextPlayIndex :: nat
  isPlaying :: bool
  scheduledEndTime :: real
  completionResolve :: "nat option"
  allEnqueued :: bool
  totalExpected :: int
  started :: "(audioBuffer \<times> real) list"
  resolved :: "nat list"

definition constructor :: aqm where
  "constructor = \<lparr> queue = [], nextPlayIndex = 0, isPlaying = False, scheduledEndTime = 0,
     completionResolve = None, allEnqueued = False, totalExpected = - 1,
     started = [], resolved = [] \<rparr>"

text \<open>The condition tested by \<open>checkCompletion\<close>.\<close>

definition completionCondition :: "aqm \<Rightarrow> bool" where
  "completionCondition m \<longleftrightarrow> allEnqueued m \<and> int (nextPlayIndex m) \<ge> totalExpected m \<and> \<not> isPlaying m"

definition checkCompletion :: "aqm \<Rightarrow> aqm" where
  "checkCompletion m =
     (if completionCondition m
      then (case completionResolve m of
              Some p \<Rightarrow> m\<lparr> resolved := resolved m @ [p], completionResolve := None \<rparr>
            | None \<Rightarrow> m)
      else m)"

lemma delete_shorter:
  "map_of q k = Some b \<Longrightarrow> length (AList.delete k q) < length q"
  by (induction q) (auto simp: less_Suc_eq_le length_delete_le split: if_splits)

function tryPlayNext :: "real \<Rightarrow> aqm \<Rightarrow> aqm" where
  "tryPlayNext now m =
     (case map_of (queue m) (nextPlayIndex m) of
        None \<Rightarrow> m
      | Some buffer \<Rightarrow>
          (let startTime = max (now + 0.02) (scheduledEndTime m)
           in tryPlayNext now
                (m\<lparr> queue := AList.delete (nextPlayIndex m) (queue m),
                    started := started m @ [(buffer, startTime)],
                    scheduledEndTime := startTime + duration buffer,
                    nextPlayIndex := nextPlayIndex m + 1,
                    isPlaying := True \<rparr>)))"
  by pat_completeness auto

termination
  by (relation "measure (\<lambda>(now, m). length (queue m))") (auto simp: delete_shorter)

declare tryPlayNext.simps [simp del]

definition enqueue :: "nat \<Rightarrow> audioBuffer \<Rightarrow> real \<Rightarrow> aqm \<Rightarrow> aqm" where
  "enqueue index audioBuf now m =
     tryPlayNext now (m\<lparr> queue := AList.update index audioBuf (queue m) \<rparr>)"

definition markAllEnqueued :: "int \<Rightarrow> aqm \<Rightarrow> aqm" where
  "markAllEnqueued total' m = checkCompletion (m\<lparr> allEnqueued := True, totalExpected := total' \<rparr>)"

text \<open>The \<open>source.onended\<close> callback installed by \<open>tryPlayNext\<close>.\<close>

definition onended :: "real \<Rightarrow> aqm \<Rightarrow> aqm" where
  "onended now m =
     tryPlayNext now
       (if map_of (queue m) (nextPlayIndex m) = None
        then checkCompletion (m\<lparr> isPlaying := False \<rparr>)
        else m)"

definition waitForCompletion :: "nat \<Rightarrow> aqm \<Rightarrow> aqm" where
  "waitForCompletion p m = checkCompletion (m\<lparr> completionResolve := Some p \<rparr>)"

definition clear :: "aqm \<Rightarrow> aqm" where
  "clear m =
     (let m1 = m\<lparr> queue := [], nextPlayIndex := 0, isPlaying := False, scheduledEndTime := 0,
                  allEnqueued := False, totalExpected := - 1 \<rparr>
      in case completionResolve m1 of
           Some p \<Rightarrow> m1\<lparr> resolved := resolved m1 @ [p], completionResolve := None \<rparr>
         | None \<Rightarrow> m1)"

text \<open>
  The calls a manager receives during a turn, each one callback run to completion, and
  the state they lead to from a given one.
\<close>

datatype event =
    Enqueue nat audioBuffer real
  | MarkAllEnqueued int
  | Onended real
  | WaitForCompletion nat
  | Clear

fun step :: "aqm \<Rightarrow> event \<Rightarrow> aqm" where
  "step m (Enqueue index audioBuf now) = enqueue index audioBuf now m"
| "step m (MarkAllEnqueued total') = markAllEnqueued total' m"
| "step m (Onended now) = onended now m"
| "step m (WaitForCompletion p) = waitForCompletion p m"
| "step m Clear = clear m"

definition run :: "event list \<Rightarrow> aqm \<Rightarrow> aqm" where
  "run evs m = foldl step m evs"

text \<open>The (index, buffer) pairs admitted by a trace, in arrival order.\<close>

fun enqueued :: "event list \<Rightarrow> (nat \<times> audioBuffer) list" where
  "enqueued [] = []"
| "enqueued (Enqueue index audioBuf now # evs) = (index, audioBuf) # enqueued evs"
| "enqueued (e # evs) = enqueued evs"

text \<open>The totals recorded by the \<open>markAllEnqueued\<close> calls of a trace.\<close>

fun totals :: "event list \<Rightarrow> int list" where
  "totals [] = []"
| "totals (MarkAllEnqueued total' # evs) = total' # totals evs"
| "totals (e # evs) = totals evs"

text \<open>
  The gapless scheduling rule in the specification's words: each buffer starts at
  \<open>max (currentClockTime + lead) previousScheduledEndTime\<close>, and the previous scheduled
  end time is then that start plus the buffer's duration.
\<close>

fun gapless :: "real \<Rightarrow> real \<Rightarrow> audioBuffer list \<Rightarrow> (audioBuffer \<times> real) list" where
  "gapless now prevEnd [] = []"
| "gapless now prevEnd (b # bs) =
     (b, max (now + 0.02) prevEnd) # gapless now (max (now + 0.02) prevEnd + duration b) bs"

fun gapless_end :: "real \<Rightarrow> real \<Rightarrow> audioBuffer list \<Rightarrow> real" where
  "gapless_end now prevEnd [] = prevEnd"
| "gapless_end now prevEnd (b # bs) =
     gapless_end now (max (now + 0.02) prevEnd + duration b) bs"

text \<open>
  Invariants of a turn. \<open>stalled k\<close>: index \<open>k\<close> has not been admitted, the cursor has
  not passed it, any recorded total exceeds it and no promise has been resolved.
  \<open>in_order buf S\<close>: the indices admitted so far are \<open>S\<close>, each with the buffer \<open>buf\<close>
  assigns to it; what has been started is the buffers of the indices below the cursor,
  in index order, and the queue holds exactly the admitted indices not yet played.
\<close>

definition stalled :: "nat \<Rightarrow> aqm \<Rightarrow> bool" where
  "stalled k m \<longleftrightarrow>
     nextPlayIndex m \<le> k \<and> map_of (queue m) k = None \<and>
     (allEnqueued m \<longrightarrow> int k < totalExpected m) \<and> resolved m = []"

definition in_order :: "(nat \<Rightarrow> audioBuffer) \<Rightarrow> nat set \<Rightarrow> aqm \<Rightarrow> bool" where
  "in_order buf S m \<longleftrightarrow>
     map fst (started m) = map buf [0..<nextPlayIndex m] \<and>
     (\<forall>j. map_of (queue m) j \<noteq> None \<longleftrightarrow> j \<in> S \<and> nextPlayIndex m \<le> j) \<and>
     (\<forall>j < nextPlayIndex m. j \<in> S) \<and> nextPlayIndex m \<notin> S \<and>
     (\<forall>i b. map_of (queue m) i = Some b \<longrightarrow> b = buf i)"

text \<open>Consecutive started buffers touch: each starts where the previous one ends.\<close>

fun touching :: "(audioBuffer \<times> real) list \<Rightarrow> bool" where
  "touching [] = True"
| "touching [x] = True"
| "touching (x # y # rest) = (snd y = snd x + duration (fst x) \<and> touching (y # rest))"

section \<open>The chat route: hidden-span filter, sentence segmentation, flush\<close>

text \<open>
  The streaming part of the \<open>/api/chat\<close> handler. \<open>server.js\<close> and the second server
  file share the hidden-span filter, the loop body for one delta and the flush; they
  differ in how the flag \<open>aborted\<close> is set (below). A JS string is a \<open>string\<close>: a list
  of code units below 256.
  The regular expressions of the source are written out as the scans they perform:
  \<^item> \<open>\s\<close> and \<open>trim\<close> see the code units 9 to 13, 32 and 160 as white space;
  \<^item> \<open>text.includes(p)\<close> is \<open>js_includes p text\<close>;
  \<^item> \<open>replace(/<think>[\s\S]*?<\/think>/g, '')\<close> is \<open>remove_spans\<close>: at a start marker the
    lazy match ends at the first end marker after it, and the scan resumes behind it;
    where no end marker follows, the character is kept and the scan moves on by one;
  \<^item> \<open>replace(/<think>[\s\S]*/g, '')\<close> keeps what precedes the first start marker:
    \<open>before_first\<close>;
  \<^item> \<open>replace(/[\s\S]*<\/think>/g, '')\<close> is greedy and keeps what follows the last end
    marker: \<open>after_last\<close>.
\<close>

definition is_space :: "char \<Rightarrow> bool" where
  "is_space c \<longleftrightarrow> c \<in> {CHR 0x09, CHR 0x0A, CHR 0x0B, CHR 0x0C, CHR 0x0D, CHR '' '', CHR 0xA0}"

definition trim :: "string \<Rightarrow> string" where
  "trim s = rev (dropWhile is_space (rev (dropWhile is_space s)))"

definition starts_with :: "string \<Rightarrow> string \<Rightarrow> bool" where
  "starts_with p s \<longleftrightarrow> take (length p) s = p"

fun js_includes :: "string \<Rightarrow> string \<Rightarrow> bool" where
  "js_includes p [] = (p = [])"
| "js_includes p (c # cs) = (starts_with p (c # cs) \<or> js_includes p cs)"

fun find_after :: "string \<Rightarrow> string \<Rightarrow> string option" where
  "find_after p [] = (if p = [] then Some [] else None)"
| "find_after p (c # cs) =
     (if starts_with p (c # cs) then Some (drop (length p) (c # cs)) else find_after p cs)"

fun before_first :: "string \<Rightarrow> string \<Rightarrow> string" where
  "before_first p [] = []"
| "before_first p (c # cs) = (if starts_with p (c # cs) then [] else c # before_first p cs)"

fun after_last :: "string \<Rightarrow> string \<Rightarrow> string" where
  "after_last p [] = []"
| "after_last p (c # cs) =
     (if js_includes p cs then after_last p cs
      else if starts_with p (c # cs) then drop (length p) (c # cs)
      else c # cs)"

definition THINK_OPEN :: string where "THINK_OPEN = ''<think>''"

definition THINK_CLOSE :: string where "THINK_CLOSE = ''</think>''"

lemma find_after_length: "find_after p s = Some r \<Longrightarrow> length r \<le> length s"
  by (induction s) (auto split: if_splits)

function remove_spans :: "string \<Rightarrow> string" where
  "remove_spans [] = []"
| "remove_spans (c # cs) =
     (if starts_with THINK_OPEN (c # cs)
      then (case find_after THINK_CLOSE (drop (length THINK_OPEN) (c # cs)) of
              Some rest \<Rightarrow> remove_spans rest
            | None \<Rightarrow> c # remove_spans cs)
      else c # remove_spans cs)"
  by pat_completeness auto

termination
  by (relation "measure length") (auto simp: THINK_OPEN_def dest!: find_after_length)

text \<open>
  \<open>stripThinking\<close> reads and writes the variable \<open>insideThinking\<close> of the handler: the
  model takes its value and returns the new one with the text.
\<close>

definition stripThinking :: "bool \<Rightarrow> string \<Rightarrow> bool \<times> string" where
  "stripThinking insideThinking text =
     (let text1 = remove_spans text;
          (inside2, text2) =
             (if js_includes THINK_OPEN text1 then (True, before_first THINK_OPEN text1)
              else (insideThinking, text1));
          (inside3, text3) =
             (if inside2 \<and> js_includes THINK_CLOSE text2 then (False, after_last THINK_CLOSE text2)
              else (inside2, text2))
      in if inside3 then (inside3, []) else (inside3, text3))"

text \<open>
  \<open>cleanText\<close>: the chain of replacements, in the source's order. \<open>remove_bold\<close> deletes
  every \<open>**\<close>, the filter after it every remaining \<open>*\<close>. \<open>strip_headings\<close> is
  \<open>replace(/#{1,6}\s/g, '')\<close>: a run of at most six \<open>#\<close> followed by white space is
  deleted; in a longer run the first \<open>#\<close> is kept and the scan moves on by one.
  \<open>collapse_links\<close> is \<open>replace(/\[([^\]]+)\]\([^)]+\)/g, '$1')\<close>: \<open>link_at\<close> matches, behind
  an opening bracket, a non-empty label up to the first \<open>]\<close>, then \<open>(\<close>, a non-empty
  target up to the first \<open>)\<close>, and returns the label and the text behind the match.
\<close>

fun remove_bold :: "string \<Rightarrow> string" where
  "remove_bold (c # d # cs) =
     (if c = CHR ''*'' \<and> d = CHR ''*'' then remove_bold cs else c # remove_bold (d # cs))"
| "remove_bold cs = cs"

definition is_hash :: "char \<Rightarrow> bool" where
  "is_hash c \<longleftrightarrow> c = CHR ''#''"

function strip_headings :: "string \<Rightarrow> string" where
  "strip_headings [] = []"
| "strip_headings (c # cs) =
     (if is_hash c \<and> length (takeWhile is_hash cs) < 6 \<and>
         dropWhile is_hash cs \<noteq> [] \<and> is_space (hd (dropWhile is_hash cs))
      then strip_headings (tl (dropWhile is_hash cs))
      else c # strip_headings cs)"
  by pat_completeness auto

termination
proof (relation "measure length", goal_cases)
  case 1
  then show ?case by simp
next
  case (2 c cs)
  have "length (tl (dropWhile is_hash cs)) \<le> length cs"
    using length_dropWhile_le[of is_hash cs] by simp
  then show ?case by simp
next
  case (3 c cs)
  then show ?case by simp
qed

definition link_at :: "string \<Rightarrow> (string \<times> string) option" where
  "link_at cs =
     (let label = takeWhile (\<lambda>x. x \<noteq> CHR '']'') cs;
          r1 = dropWhile (\<lambda>x. x \<noteq> CHR '']'') cs
      in if label \<noteq> [] \<and> take 2 r1 = '']('' then
           (let url = takeWhile (\<lambda>x. x \<noteq> CHR '')'') (drop 2 r1);
                r2 = dropWhile (\<lambda>x. x \<noteq> CHR '')'') (drop 2 r1)
            in if url \<noteq> [] \<and> r2 \<noteq> [] then Some (label, tl r2) else None)
         else None)"

lemma link_at_length: "link_at cs = Some (label, rest) \<Longrightarrow> length rest \<le> length cs"
proof -
  assume a: "link_at cs = Some (label, rest)"
  let ?r1 = "dropWhile (\<lambda>x. x \<noteq> CHR '']'') cs"
  let ?r2 = "dropWhile (\<lambda>x. x \<noteq> CHR '')'') (drop 2 ?r1)"
  from a have "rest = tl ?r2" by (auto simp: link_at_def Let_def split: if_splits)
  moreover have "length ?r2 \<le> length (drop 2 ?r1)" by (rule length_dropWhile_le)
  moreover have "length ?r1 \<le> length cs" by (rule length_dropWhile_le)
  ultimately show ?thesis by simp
qed

function collapse_links :: "string \<Rightarrow> string" where
  "collapse_links [] = []"
| "collapse_links (c # cs) =
     (if c = CHR ''['' then
        (case link_at cs of
           Some (label, rest) \<Rightarrow> label @ collapse_links rest
         | None \<Rightarrow> c # collapse_links cs)
      else c # collapse_links cs)"
  by pat_completeness auto

termination
  by (relation "measure length") (auto dest!: link_at_length)

definition cleanText :: "string \<Rightarrow> string" where
  "cleanText text =
     trim (collapse_links (filter (\<lambda>c. c \<noteq> CHR ''`'')
       (strip_headings (filter (\<lambda>c. c \<noteq> CHR ''*'') (remove_bold text)))))"

text \<open>
  Sentence boundaries. \<open>boundaries\<close> lists the matches of \<open>/([.!?])\s+/g\<close> in the buffer
  as (index, length of the match), as the \<open>regex.exec\<close> loop meets them. \<open>accept\<close> is the
  body of that loop: a match is accepted when the trimmed text from \<open>lastIndex\<close> up to
  and including the punctuation mark has at least \<open>minLen\<close> characters; it returns the
  accepted sentences and the final \<open>lastIndex\<close>.
\<close>

definition is_terminal :: "char \<Rightarrow> bool" where
  "is_terminal c \<longleftrightarrow> c = CHR ''.'' \<or> c = CHR ''!'' \<or> c = CHR ''?''"

function boundaries :: "nat \<Rightarrow> string \<Rightarrow> (nat \<times> nat) list" where
  "boundaries i [] = []"
| "boundaries i (c # cs) =
     (if is_terminal c \<and> takeWhile is_space cs \<noteq> []
      then (i, 1 + length (takeWhile is_space cs)) #
           boundaries (i + 1 + length (takeWhile is_space cs)) (dropWhile is_space cs)
      else boundaries (i + 1) cs)"
  by pat_completeness auto

termination
proof (relation "measure (\<lambda>(i, s). length s)", goal_cases)
  case 1
  then show ?case by simp
next
  case (2 i c cs)
  have "length (dropWhile is_space cs) \<le> length cs" by (rule length_dropWhile_le)
  then show ?case by simp
next
  case (3 i c cs)
  then show ?case by simp
qed

definition slice :: "nat \<Rightarrow> nat \<Rightarrow> string \<Rightarrow> string" where
  "slice a b s = take (b - a) (drop a s)"

fun accept :: "nat \<Rightarrow> string \<Rightarrow> (nat \<times> nat) list \<Rightarrow> nat \<Rightarrow> string list \<times> nat" where
  "accept minLen buf [] lastIndex = ([], lastIndex)"
| "accept minLen buf ((i, n) # ms) lastIndex =
     (let sentence = trim (slice lastIndex (i + 1) buf)
      in if length sentence \<ge> minLen
         then (let (ss, l) = accept minLen buf ms (i + n) in (sentence # ss, l))
         else accept minLen buf ms lastIndex)"

text \<open>
  The events written to the response, and the variables of one request. \<open>on_content\<close>
  is the body of the loop over the lines of a chunk for one parsed \<open>delta.content\<close>;
  \<open>on_end\<close> is the flush when the upstream stream ends. \<open>feed\<close> hands the deltas to
  \<open>on_content\<close> in order; a delta that arrives when \<open>aborted\<close> is set is not processed
  (the read loop \<open>while (!aborted)\<close> of \<open>server.js\<close>, the \<open>if (aborted) return\<close> of the
  second file's data handler).
\<close>

datatype sse_event = Token string | Sentence nat string | Done nat

record chat =
  sentenceBuffer :: string
  sentenceIndex :: nat
  insideThinking :: bool
  aborted :: bool

definition chat_start :: chat where
  "chat_start = \<lparr> sentenceBuffer = [], sentenceIndex = 0, insideThinking = False, aborted = False \<rparr>"

fun write_sentences :: "chat \<Rightarrow> string list \<Rightarrow> chat \<times> sse_event list" where
  "write_sentences c [] = (c, [])"
| "write_sentences c (sentence # rest) =
     (let cleaned = cleanText sentence
      in if cleaned \<noteq> [] \<and> \<not> aborted c
         then (let (c', evs) = write_sentences (c\<lparr> sentenceIndex := sentenceIndex c + 1 \<rparr>) rest
               in (c', Sentence (sentenceIndex c) cleaned # evs))
         else write_sentences c rest)"

definition on_content :: "chat \<Rightarrow> string \<Rightarrow> chat \<times> sse_event list" where
  "on_content c content =
     (if content = [] then (c, [])
      else
        (let (inside, content') = stripThinking (insideThinking c) content;
             c1 = c\<lparr> insideThinking := inside \<rparr>
         in if content' = [] then (c1, [])
            else
              (let tokens = (if aborted c1 then [] else [Token content']);
                   buf = sentenceBuffer c1 @ content';
                   (sentences, lastIndex) = accept 10 buf (boundaries 0 buf) 0
               in if sentences = [] then (c1\<lparr> sentenceBuffer := buf \<rparr>, tokens)
                  else
                    (let (c2, evs) = write_sentences (c1\<lparr> sentenceBuffer := drop lastIndex buf \<rparr>) sentences
                     in (c2, tokens @ evs)))))"

definition on_end :: "chat \<Rightarrow> sse_event list" where
  "on_end c =
     (if aborted c then []
      else
        (let remaining = cleanText (sentenceBuffer c)
         in if remaining \<noteq> []
            then [Sentence (sentenceIndex c) remaining, Done (sentenceIndex c + 1)]
            else [Done (sentenceIndex c)]))"

fun feed :: "chat \<Rightarrow> string list \<Rightarrow> chat \<times> sse_event list" where
  "feed c [] = (c, [])"
| "feed c (content # rest) =
     (if aborted c then feed c rest
      else (let (c1, evs1) = on_content c content; (c2, evs2) = feed c1 rest
            in (c2, evs1 @ evs2)))"

text \<open>
  What reaches a handler while it serves one request: \<open>RequestClose\<close> is the event
  \<open>close\<close> of the request object, \<open>ClientAbort\<close> a disconnect of the client (the event
  \<open>aborted\<close> of the request, or \<open>close\<close> of the response before its end), \<open>Content\<close> a
  delta of the upstream stream. The handler runs after \<open>express.json()\<close> has read the body
  of the POST, and the request emits \<open>close\<close> once its body has been consumed, before the
  upstream service answers: the second server file says so in the comment above its
  listeners. \<open>posted deltas\<close> is therefore what a handler receives from a client that
  stays connected while the upstream service sends \<open>deltas\<close>.

  \<open>server.js\<close> sets \<open>aborted\<close> in its listener for \<open>close\<close> of the request
  (\<open>close_feed\<close>, \<open>server_js_stream\<close>). The second server file sets it in \<open>abortStream\<close>,
  called on a disconnect only (\<open>abort_feed\<close>); \<open>chat_stream\<close> is its response to a client
  that stays connected, where \<open>aborted\<close> is never set.
\<close>

datatype chat_input = RequestClose | ClientAbort | Content string

definition posted :: "string list \<Rightarrow> chat_input list" where
  "posted deltas = RequestClose # map Content deltas"

fun close_feed :: "chat \<Rightarrow> chat_input list \<Rightarrow> chat \<times> sse_event list" where
  "close_feed c [] = (c, [])"
| "close_feed c (RequestClose # rest) = close_feed (c\<lparr> aborted := True \<rparr>) rest"
| "close_feed c (ClientAbort # rest) = close_feed c rest"
| "close_feed c (Content content # rest) =
     (if aborted c then close_feed c rest
      else (let (c1, evs1) = on_content c content; (c2, evs2) = close_feed c1 rest
            in (c2, evs1 @ evs2)))"

definition server_js_stream :: "string list \<Rightarrow> sse_event list" where
  "server_js_stream deltas =
     (let (c, evs) = close_feed chat_start (posted deltas) in evs @ on_end c)"

fun abort_feed :: "chat \<Rightarrow> chat_input list \<Rightarrow> chat \<times> sse_event list" where
  "abort_feed c [] = (c, [])"
| "abort_feed c (RequestClose # rest) = abort_feed c rest"
| "abort_feed c (ClientAbort # rest) = abort_feed (c\<lparr> aborted := True \<rparr>) rest"
| "abort_feed c (Content content # rest) =
     (if aborted c then abort_feed c rest
      else (let (c1, evs1) = on_content c content; (c2, evs2) = abort_feed c1 rest
            in (c2, evs1 @ evs2)))"

definition chat_stream :: "string list \<Rightarrow> sse_event list" where
  "chat_stream deltas = (let (c, evs) = feed chat_start deltas in evs @ on_end c)"

subsection \<open>The earlier server variant\<close>

text \<open>
  One of the server files segments with the function \<open>extractSentences\<close>, whose minimum
  sentence length is 15 instead of 10; it has no hidden-span filter and no token events.
  Its events carry \<open>index\<close>, \<open>text\<close> and \<open>done\<close> (\<open>Chunk\<close>), or \<open>done\<close> alone
  (\<open>Finished\<close>). \<open>cleanForTTS\<close> is the same chain of replacements as \<open>cleanText\<close>.
  Like \<open>server.js\<close> it sets its flag \<open>aborted\<close> in a listener for \<open>close\<close> of the request
  and reads upstream only while the flag is not set.
\<close>

definition extractSentences :: "string \<Rightarrow> string list \<times> string" where
  "extractSentences text =
     (let (sentences, lastIndex) = accept 15 text (boundaries 0 text) 0
      in (sentences, drop lastIndex text))"

definition cleanForTTS :: "string \<Rightarrow> string" where
  "cleanForTTS text = cleanText text"

datatype chunk_event = Chunk nat string bool | Finished

record legacy_chat =
  legacyBuffer :: string
  legacyIndex :: nat
  legacyAborted :: bool

definition legacy_start :: legacy_chat where
  "legacy_start = \<lparr> legacyBuffer = [], legacyIndex = 0, legacyAborted = False \<rparr>"

fun write_chunks :: "legacy_chat \<Rightarrow> string list \<Rightarrow> legacy_chat \<times> chunk_event list" where
  "write_chunks c [] = (c, [])"
| "write_chunks c (sentence # rest) =
     (let cleaned = cleanForTTS sentence
      in if cleaned \<noteq> [] \<and> \<not> legacyAborted c
         then (let (c', evs) = write_chunks (c\<lparr> legacyIndex := legacyIndex c + 1 \<rparr>) rest
               in (c', Chunk (legacyIndex c) cleaned False # evs))
         else write_chunks c rest)"

definition legacy_on_content :: "legacy_chat \<Rightarrow> string \<Rightarrow> legacy_chat \<times> chunk_event list" where
  "legacy_on_content c content =
     (if content = [] then (c, [])
      else
        (let (sentences, remainder) = extractSentences (legacyBuffer c @ content)
         in write_chunks (c\<lparr> legacyBuffer := remainder \<rparr>) sentences))"

definition legacy_on_end :: "legacy_chat \<Rightarrow> chunk_event list" where
  "legacy_on_end c =
     (if trim (legacyBuffer c) \<noteq> [] \<and> \<not> legacyAborted c
      then (let cleaned = cleanForTTS (trim (legacyBuffer c))
            in if cleaned \<noteq> [] then [Chunk (legacyIndex c) cleaned True]
               else [Chunk (legacyIndex c) [] True])
      else if \<not> legacyAborted c then [Finished]
      else [])"

fun legacy_feed :: "legacy_chat \<Rightarrow> chat_input list \<Rightarrow> legacy_chat \<times> chunk_event list" where
  "legacy_feed c [] = (c, [])"
| "legacy_feed c (RequestClose # rest) = legacy_feed (c\<lparr> legacyAborted := True \<rparr>) rest"
| "legacy_feed c (ClientAbort # rest) = legacy_feed c rest"
| "legacy_feed c (Content content # rest) =
     (if legacyAborted c then legacy_feed c rest
      else (let (c1, evs1) = legacy_on_content c content; (c2, evs2) = legacy_feed c1 rest
            in (c2, evs1 @ evs2)))"

definition legacy_stream :: "string list \<Rightarrow> chunk_event list" where
  "legacy_stream deltas =
     (let (c, evs) = legacy_feed legacy_start (posted deltas) in evs @ legacy_on_end c)"

section \<open>VAD: voice activity detection\<close>

text \<open>
  The object \<open>VAD\<close> of the browser client (the same in both client versions) with the
  thresholds of \<open>CONFIG\<close>. One call of \<open>monitor\<close> is one animation frame: \<open>rms\<close> is the
  value of \<open>AudioCapture.getRMSLevel()\<close> and \<open>now\<close> the value of \<open>Date.now()\<close> in
  milliseconds for that frame. The callbacks \<open>onSpeechStart\<close> and \<open>onSpeechEnd\<close> are
  returned as the list of callbacks the frame invokes, and are taken to leave the fields of
  the detector alone; \<open>silenceStart = 0\<close> means that no silence timer runs, as in the
  source. \<open>vad_start\<close> is the state after \<open>VAD.start\<close>;
  \<open>after_frames fs\<close> is the state after the frames \<open>fs\<close>.
\<close>

definition SPEECH_THRESHOLD :: real where "SPEECH_THRESHOLD = 0.018"

definition SILENCE_THRESHOLD :: real where "SILENCE_THRESHOLD = 0.009"

definition SILENCE_DURATION :: int where "SILENCE_DURATION = 900"

record vad =
  enabled :: bool
  speechDetected :: bool
  silenceStart :: int

datatype vad_callback = OnSpeechStart | OnSpeechEnd

definition vad_start :: vad where
  "vad_start = \<lparr> enabled = True, speechDetected = False, silenceStart = 0 \<rparr>"

definition monitor :: "real \<Rightarrow> int \<Rightarrow> vad \<Rightarrow> vad \<times> vad_callback list" where
  "monitor rms now v =
     (if \<not> enabled v then (v, [])
      else if rms > SPEECH_THRESHOLD then
        (if \<not> speechDetected v
         then (v\<lparr> speechDetected := True, silenceStart := 0 \<rparr>, [OnSpeechStart])
         else (v\<lparr> silenceStart := 0 \<rparr>, []))
      else if rms < SILENCE_THRESHOLD \<and> speechDetected v then
        (if silenceStart v = 0 then (v\<lparr> silenceStart := now \<rparr>, [])
         else if now - silenceStart v > SILENCE_DURATION
         then (v\<lparr> speechDetected := False, silenceStart := 0 \<rparr>, [OnSpeechEnd])
         else (v, []))
      else (v, []))"

fun frames :: "vad \<Rightarrow> (real \<times> int) list \<Rightarrow> vad \<times> vad_callback list" where
  "frames v [] = (v, [])"
| "frames v ((rms, now) # rest) =
     (let (v1, cb1) = monitor rms now v; (v2, cb2) = frames v1 rest in (v2, cb1 @ cb2))"

definition after_frames :: "(real \<times> int) list \<Rightarrow> vad" where
  "after_frames fs = fst (frames vad_start fs)"

text \<open>
  \<open>timer_ok\<close>: while the silence timer runs, the detector is in speech, the timer was
  set at an earlier frame below the lower threshold, and no frame since then has exceeded
  the upper threshold. \<open>vad_trace\<close> is a sample trace: speech, silence, a frame between the
  thresholds, silence.
\<close>

definition timer_ok :: "(real \<times> int) list \<Rightarrow> vad \<Rightarrow> bool" where
  "timer_ok fs v \<longleftrightarrow>
     (silenceStart v \<noteq> 0 \<longrightarrow>
        speechDetected v \<and>
        (\<exists>m < length fs. fst (fs ! m) < SILENCE_THRESHOLD \<and> snd (fs ! m) = silenceStart v \<and>
            (\<forall>j. m \<le> j \<and> j < length fs \<longrightarrow> fst (fs ! j) \<le> SPEECH_THRESHOLD)))"

definition vad_trace :: "(real \<times> int) list" where
  "vad_trace = [(0.02, 1000), (0.005, 2000), (0.012, 2500), (0.005, 3000)]"

section \<open>The conversation history of the API client\<close>

text \<open>
  \<open>API.conversationHistory\<close> and the two places of \<open>API.chatStream\<close> that change it (the
  same in both client versions): the user turn is pushed, and the history is cut to its
  last \<open>MAX_HISTORY\<close> entries when it is longer, before the request is sent; the
  assistant turn is pushed after the stream has been read to its end. Each of the two is
  one uninterrupted piece of code; the request and the reading of the stream lie between
  them. \<open>slice_last n\<close> is \<open>slice(-n)\<close> for a positive \<open>n\<close>.

  \<open>history_after ops\<close> is the history after any sequence of the two operations, from the
  empty history: this covers every interleaving of calls of \<open>chatStream\<close>. The earlier
  client has no busy flag, and a press while the first sentence is spoken starts the next
  call while the stream of the previous one is still read, so its calls may overlap.
  \<open>trailing_assistants ops\<close> counts the assistant turns pushed since the last user turn.

  \<open>conversation calls\<close> is the history after calls that run one after the other, as the
  later client's \<open>pipelineBusy\<close> flag enforces: each call pushes its user turn and, unless
  it throws (\<open>Failed\<close>), its assistant turn, before the next call starts.
\<close>

definition MAX_HISTORY :: nat where "MAX_HISTORY = 20"

datatype role = User | Assistant

record message =
  role :: role
  content :: string

definition slice_last :: "nat \<Rightarrow> 'a list \<Rightarrow> 'a list" where
  "slice_last n xs = drop (length xs - n) xs"

definition push_user :: "string \<Rightarrow> message list \<Rightarrow> message list" where
  "push_user userText conversationHistory =
     (let h = conversationHistory @ [\<lparr> role = User, content = userText \<rparr>]
      in if length h > MAX_HISTORY then slice_last MAX_HISTORY h else h)"

definition push_assistant :: "string \<Rightarrow> message list \<Rightarrow> message list" where
  "push_assistant fullResponse conversationHistory =
     conversationHistory @ [\<lparr> role = Assistant, content = fullResponse \<rparr>]"

datatype chat_result = Completed string | Failed

fun chatStream :: "message list \<Rightarrow> string \<times> chat_result \<Rightarrow> message list" where
  "chatStream h (userText, Completed fullResponse) = push_assistant fullResponse (push_user userText h)"
| "chatStream h (userText, Failed) = push_user userText h"

definition conversation :: "(string \<times> chat_result) list \<Rightarrow> message list" where
  "conversation calls = foldl chatStream [] calls"

datatype history_op = PushUser string | PushAssistant string

fun apply_op :: "message list \<Rightarrow> history_op \<Rightarrow> message list" where
  "apply_op h (PushUser userText) = push_user userText h"
| "apply_op h (PushAssistant fullResponse) = push_assistant fullResponse h"

definition history_after :: "history_op list \<Rightarrow> message list" where
  "history_after ops = foldl apply_op [] ops"

fun is_push_assistant :: "history_op \<Rightarrow> bool" where
  "is_push_assistant (PushAssistant _) = True"
| "is_push_assistant (PushUser _) = False"

definition trailing_assistants :: "history_op list \<Rightarrow> nat" where
  "trailing_assistants ops = length (takeWhile is_push_assistant (rev ops))"

fun ops_of_call :: "string \<times> chat_result \<Rightarrow> history_op list" where
  "ops_of_call (userText, Completed fullResponse) = [PushUser userText, PushAssistant fullResponse]"
| "ops_of_call (userText, Failed) = [PushUser userText]"

section \<open>The speech-synthesis route\<close>

text \<open>
  The handler of \<open>POST /api/tts\<close> (the same guard in the three server files). \<open>text\<close> is
  the value of the field \<open>text\<close> of the parsed JSON body, \<open>Undefined\<close> when the body has no
  such field. The upstream service is the parameter \<open>fetch\<close>: it either fails or answers
  with \<open>ok\<close>, a status and a payload. The handler returns its reply and the list of the
  inputs it has sent upstream. A truthy \<open>text\<close> that is not a string has no method \<open>trim\<close>:
  the call throws, and the \<open>catch\<close> branch replies 500.
\<close>

datatype jsvalue = Undefined | Null | Boolean bool | Number int | String string | Object

fun truthy :: "jsvalue \<Rightarrow> bool" where
  "truthy Undefined = False"
| "truthy Null = False"
| "truthy (Boolean b) = b"
| "truthy (Number n) = (n \<noteq> 0)"
| "truthy (String s) = (s \<noteq> [])"
| "truthy Object = True"

datatype upstream = NetworkError string | Response bool nat string

datatype reply = JsonError nat string | UpstreamError nat string | Audio string

definition tts_route :: "jsvalue \<Rightarrow> (string \<Rightarrow> upstream) \<Rightarrow> reply \<times> string list" where
  "tts_route text fetch =
     (if \<not> truthy text then (JsonError 400 ''No text provided'', [])
      else
        (case text of
           String s \<Rightarrow>
             (if length (trim s) = 0 then (JsonError 400 ''No text provided'', [])
              else
                (case fetch s of
                   NetworkError msg \<Rightarrow> (JsonError 500 msg, [s])
                 | Response ok status' payload' \<Rightarrow>
                     (if \<not> ok then (UpstreamError status' payload', [s])
                      else (Audio payload', [s]))))
         | _ \<Rightarrow> (JsonError 500 ''text.trim is not a function'', [])))"

section \<open>The main controller and stale completions\<close>

text \<open>
  The object \<open>Drishti\<close> of the later browser client, with \<open>StateMachine.current\<close> as the
  field \<open>current\<close>. Every callback runs to completion, so the asynchronous function
  \<open>stopListeningAndProcess\<close> is cut at its \<open>await\<close>s: \<open>suspended\<close> says where a run of it
  is waiting, and \<open>runVersion\<close> and \<open>audioQueue\<close> are the local variables of that run
  (\<open>pipelineBusy\<close> admits one run at a time). The \<open>AudioQueueManager\<close> objects created so
  far are the list \<open>queues\<close>; a reference to one is its position. \<open>awaited\<close> is the promise
  of \<open>waitForCompletion\<close> the run waits for.

  The callbacks a run creates capture its local variables and may run after it has ended.
  What they capture is therefore kept per run and survives the next run. A run whose
  callbacks do anything has created exactly one queue, so the queue's position stands for
  the run: \<open>sentenceCounts ! q\<close> is the local variable \<open>sentenceCount\<close> of the run that
  created queue \<open>q\<close>. \<open>inflight\<close> lists the speech requests that have not settled, each
  with the \<open>runVersion\<close> of the run that issued it, the queue its completion callback has
  captured, and its sentence index. \<open>settling\<close> lists the callbacks registered on
  \<open>Promise.all(ttsPromises)\<close> that have not run, each with the queue it has captured, the
  sentence count of the \<open>done\<close> event it has captured, and the sentence indices of the
  requests of its run that were in flight when it was registered and have not settled
  since (requests of one run for the same index are taken to settle in the order of
  their dispatch).

  \<open>finallyBlock\<close> is the \<open>finally\<close> block of \<open>stopListeningAndProcess\<close>;
  \<open>afterStopRecording\<close>, \<open>afterTranscribe\<close> and \<open>afterChatStream\<close> are the parts of its body
  between two \<open>await\<close>s; \<open>onSentence\<close> and \<open>onDone\<close> are the callbacks handed to
  \<open>API.chatStream\<close>; \<open>onDone\<close> registers the callback on \<open>Promise.all(ttsPromises)\<close>, and
  \<open>afterAllSettled\<close> is that callback, run once every request it waits for has settled:
  it marks the queue it has captured, also when the run has ended. \<open>settle\<close> records that
  one request has settled. \<open>ttsCompletion\<close> is the callback that receives the decoded
  buffer of one sentence. It reads no version.
\<close>

datatype state = IDLE | LISTENING | PROCESSING | STREAMING | SPEAKING

datatype suspension = NotRunning | AwaitRecording | AwaitTranscribe | AwaitChat | AwaitPlayback

record drishti =
  current :: state
  ttsEnabled :: bool
  pipelineBusy :: bool
  interactionVersion :: nat
  currentQueue :: "nat option"
  queues :: "aqm list"
  suspended :: suspension
  runVersion :: nat
  audioQueue :: "nat option"
  sentenceCounts :: "nat list"
  awaited :: "nat option"
  settling :: "(nat \<times> nat \<times> nat list) list"
  inflight :: "(nat \<times> nat \<times> nat) list"

definition drishti_init :: drishti where
  "drishti_init = \<lparr> current = IDLE, ttsEnabled = False, pipelineBusy = False,
     interactionVersion = 0, currentQueue = None, queues = [], suspended = NotRunning,
     runVersion = 0, audioQueue = None, sentenceCounts = [], awaited = None, settling = [],
     inflight = [] \<rparr>"

definition transition :: "state \<Rightarrow> drishti \<Rightarrow> drishti" where
  "transition newState d = (if current d = newState then d else d\<lparr> current := newState \<rparr>)"

definition startListening :: "drishti \<Rightarrow> drishti" where
  "startListening d = transition LISTENING (d\<lparr> interactionVersion := interactionVersion d + 1 \<rparr>)"

definition handlePressStart :: "drishti \<Rightarrow> drishti" where
  "handlePressStart d =
     (if pipelineBusy d then d
      else if current d = IDLE then startListening d
      else d)"

definition returnToIdle :: "drishti \<Rightarrow> drishti" where
  "returnToIdle d = transition IDLE d"

definition finallyBlock :: "drishti \<Rightarrow> drishti" where
  "finallyBlock d =
     (let d1 = d\<lparr> currentQueue := None, pipelineBusy := False, suspended := NotRunning \<rparr>
      in if runVersion d1 = interactionVersion d1 then returnToIdle d1 else d1)"

definition stopListeningAndProcess :: "drishti \<Rightarrow> drishti" where
  "stopListeningAndProcess d =
     (if pipelineBusy d then d
      else transition PROCESSING
             (d\<lparr> pipelineBusy := True, runVersion := interactionVersion d,
                 audioQueue := None, awaited := None,
                 suspended := AwaitRecording \<rparr>))"

definition handlePressEnd :: "drishti \<Rightarrow> drishti" where
  "handlePressEnd d = (if current d = LISTENING then stopListeningAndProcess d else d)"

definition afterStopRecording :: "bool \<Rightarrow> drishti \<Rightarrow> drishti" where
  "afterStopRecording audioBlob d =
     (if \<not> audioBlob then finallyBlock d else d\<lparr> suspended := AwaitTranscribe \<rparr>)"

definition afterTranscribe :: "string \<Rightarrow> drishti \<Rightarrow> drishti" where
  "afterTranscribe text d =
     (if text = [] \<or> trim text = [] then finallyBlock d
      else
        (let d1 = transition STREAMING d;
             d2 = (if ttsEnabled d1
                   then d1\<lparr> queues := queues d1 @ [constructor],
                            sentenceCounts := sentenceCounts d1 @ [0],
                            audioQueue := Some (length (queues d1)),
                            currentQueue := Some (length (queues d1)) \<rparr>
                   else d1)
         in d2\<lparr> suspended := AwaitChat \<rparr>))"

definition onSentence :: "nat \<Rightarrow> drishti \<Rightarrow> drishti" where
  "onSentence idx d =
     (case audioQueue d of
        None \<Rightarrow> d
      | Some q \<Rightarrow>
          (if \<not> ttsEnabled d then d
           else d\<lparr> sentenceCounts := (sentenceCounts d)[q := sentenceCounts d ! q + 1],
                   inflight := inflight d @ [(runVersion d, q, idx)] \<rparr>))"

definition ttsCompletion :: "nat \<Rightarrow> nat \<Rightarrow> audioBuffer \<Rightarrow> real \<Rightarrow> drishti \<Rightarrow> drishti" where
  "ttsCompletion q idx buf now d =
     (let d1 = (if idx = 0 then transition SPEAKING d else d)
      in d1\<lparr> queues := (queues d1)[q := enqueue idx buf now (queues d1 ! q)] \<rparr>)"

definition afterChatStream :: "nat \<Rightarrow> drishti \<Rightarrow> drishti" where
  "afterChatStream p d =
     (case audioQueue d of
        None \<Rightarrow> finallyBlock d
      | Some q \<Rightarrow>
          (if \<not> ttsEnabled d then finallyBlock d
           else d\<lparr> queues := (queues d)[q := waitForCompletion p (queues d ! q)],
                   awaited := Some p, suspended := AwaitPlayback \<rparr>))"

definition onDone :: "nat \<Rightarrow> drishti \<Rightarrow> drishti" where
  "onDone n d =
     (case audioQueue d of
        None \<Rightarrow> d
      | Some q \<Rightarrow>
          (if \<not> ttsEnabled d then d
           else d\<lparr> settling := settling d @
                     [(q, n, map (\<lambda>(v, q', idx). idx)
                               (filter (\<lambda>(v, q', idx). q' = q) (inflight d)))] \<rparr>))"

definition settle :: "nat \<Rightarrow> nat \<Rightarrow> drishti \<Rightarrow> drishti" where
  "settle q idx d =
     d\<lparr> settling := map (\<lambda>(q', n, waiting).
                          if q' = q then (q', n, remove1 idx waiting) else (q', n, waiting))
                        (settling d) \<rparr>"

fun afterAllSettled :: "nat \<times> nat \<times> nat list \<Rightarrow> drishti \<Rightarrow> drishti" where
  "afterAllSettled (q, n, waiting) d =
     d\<lparr> queues := (queues d)[q := markAllEnqueued
             (int (if n \<noteq> 0 then n else sentenceCounts d ! q)) (queues d ! q)] \<rparr>"

definition playbackResolved :: "drishti \<Rightarrow> bool" where
  "playbackResolved d =
     (case (audioQueue d, awaited d) of
        (Some q, Some p) \<Rightarrow> p \<in> set (resolved (queues d ! q))
      | _ \<Rightarrow> False)"

text \<open>
  What can happen to the controller, one callback each, and the state after a list of
  happenings from the initial state. A happening that finds the run waiting elsewhere
  does nothing. \<open>AllTtsSettled q\<close> runs the oldest callback on \<open>Promise.all(ttsPromises)\<close>
  of the run of queue \<open>q\<close> whose requests have all settled. \<open>barge\<close> is a session in which
  speech is enabled, the first turn dispatches the request for sentence 0, its text stream
  then fails, the turn ends, and the user starts the next listening phase while that
  request is still in flight. \<open>late_mark\<close> is a session in which the \<open>done\<close> event of the first
  turn arrives while the request for sentence 0 is in flight, the text stream then fails
  and the turn ends, the next turn begins, and only then the request fails.
\<close>

datatype happening =
    PressStart
  | PressEnd
  | ToggleTts
  | RecordingStopped bool
  | Transcribed string
  | SentenceArrived nat
  | ChatStreamFailed
  | ChatStreamReturned nat
  | TtsDecoded nat nat nat audioBuffer real
  | TtsFailed nat nat nat
  | StreamDone nat
  | AllTtsSettled nat
  | SourceEnded nat real
  | PlaybackCompleted

fun react :: "drishti \<Rightarrow> happening \<Rightarrow> drishti" where
  "react d PressStart = handlePressStart d"
| "react d PressEnd = handlePressEnd d"
| "react d ToggleTts = d\<lparr> ttsEnabled := \<not> ttsEnabled d \<rparr>"
| "react d (RecordingStopped audioBlob) =
     (if suspended d = AwaitRecording then afterStopRecording audioBlob d else d)"
| "react d (Transcribed text) =
     (if suspended d = AwaitTranscribe then afterTranscribe text d else d)"
| "react d (SentenceArrived idx) =
     (if suspended d = AwaitChat then onSentence idx d else d)"
| "react d ChatStreamFailed =
     (if suspended d = AwaitChat then finallyBlock d else d)"
| "react d (ChatStreamReturned p) =
     (if suspended d = AwaitChat then afterChatStream p d else d)"
| "react d (TtsDecoded v q idx buf now) =
     (if (v, q, idx) \<in> set (inflight d)
      then ttsCompletion q idx buf now
             (settle q idx (d\<lparr> inflight := remove1 (v, q, idx) (inflight d) \<rparr>))
      else d)"
| "react d (TtsFailed v q idx) =
     (if (v, q, idx) \<in> set (inflight d)
      then settle q idx (d\<lparr> inflight := remove1 (v, q, idx) (inflight d) \<rparr>)
      else d)"
| "react d (StreamDone n) =
     (if suspended d = AwaitChat then onDone n d else d)"
| "react d (AllTtsSettled q) =
     (case find (\<lambda>(q', n, waiting). q' = q \<and> waiting = []) (settling d) of
        None \<Rightarrow> d
      | Some e \<Rightarrow> afterAllSettled e (d\<lparr> settling := remove1 e (settling d) \<rparr>))"
| "react d (SourceEnded q now) =
     (if q < length (queues d) then d\<lparr> queues := (queues d)[q := onended now (queues d ! q)] \<rparr>
      else d)"
| "react d PlaybackCompleted =
     (if suspended d = AwaitPlayback \<and> playbackResolved d then finallyBlock d else d)"

definition session :: "happening list \<Rightarrow> drishti" where
  "session hs = foldl react drishti_init hs"

definition barge :: "happening list" where
  "barge = [ToggleTts, PressStart, PressEnd, RecordingStopped True, Transcribed ''hi'',
            SentenceArrived 0, ChatStreamFailed, PressStart]"

definition late_mark :: "happening list" where
  "late_mark = [ToggleTts, PressStart, PressEnd, RecordingStopped True, Transcribed ''hi'',
                SentenceArrived 0, StreamDone 0, ChatStreamFailed, PressStart, PressEnd,
                RecordingStopped True, Transcribed ''more'', TtsFailed 1 0 0]"

chapter \<open>Properties\<close>

section \<open>The playback queue: properties\<close>

lemma tryPlayNext_absent:
  "map_of (queue m) (nextPlayIndex m) = None \<Longrightarrow> tryPlayNext now m = m"
  by (simp add: tryPlayNext.simps)

lemma tryPlayNext_present:
  "map_of (queue m) (nextPlayIndex m) = Some b \<Longrightarrow>
   tryPlayNext now m =
     tryPlayNext now
       (m\<lparr> queue := AList.delete (nextPlayIndex m) (queue m),
           started := started m @ [(b, max (now + 0.02) (scheduledEndTime m))],
           scheduledEndTime := max (now + 0.02) (scheduledEndTime m) + duration b,
           nextPlayIndex := nextPlayIndex m + 1,
           isPlaying := True \<rparr>)"
  by (subst tryPlayNext.simps) (simp add: Let_def)

lemma tryPlayNext_frame:
  "completionResolve (tryPlayNext now m) = completionResolve m \<and>
   allEnqueued (tryPlayNext now m) = allEnqueued m \<and>
   totalExpected (tryPlayNext now m) = totalExpected m \<and>
   resolved (tryPlayNext now m) = resolved m"
proof (induction now m rule: tryPlayNext.induct)
  case (1 now m)
  show ?case
  proof (cases "map_of (queue m) (nextPlayIndex m)")
    case None
    then show ?thesis by (simp add: tryPlayNext_absent)
  next
    case (Some b)
    from "1.IH"[OF Some refl] Some show ?thesis
      by (simp add: tryPlayNext_present)
  qed
qed

lemma tryPlayNext_missing:
  "map_of (queue m) k = None \<Longrightarrow> nextPlayIndex m \<le> k \<Longrightarrow>
   nextPlayIndex (tryPlayNext now m) \<le> k \<and> map_of (queue (tryPlayNext now m)) k = None"
proof (induction now m rule: tryPlayNext.induct)
  case (1 now m)
  show ?case
  proof (cases "map_of (queue m) (nextPlayIndex m)")
    case None
    with "1.prems" show ?thesis by (simp add: tryPlayNext_absent)
  next
    case (Some b)
    with "1.prems" have lt: "nextPlayIndex m < k" by (cases "nextPlayIndex m = k") auto
    from "1.IH"[OF Some refl] "1.prems" lt Some show ?thesis
      by (simp add: tryPlayNext_present delete_conv')
  qed
qed

lemma checkCompletion_stalled:
  "nextPlayIndex m \<le> k \<Longrightarrow> (allEnqueued m \<longrightarrow> int k < totalExpected m) \<Longrightarrow> checkCompletion m = m"
  by (auto simp: checkCompletion_def completionCondition_def)

lemma stalled_step:
  assumes "stalled k m" and "e \<noteq> Clear" and "\<forall>b now. e \<noteq> Enqueue k b now"
    and "\<forall>t. e = MarkAllEnqueued t \<longrightarrow> int k < t"
  shows "stalled k (step m e)"
proof (cases e)
  case (Enqueue i b now)
  with assms have ik: "i \<noteq> k" by auto
  let ?m1 = "m\<lparr> queue := AList.update i b (queue m) \<rparr>"
  from assms(1) ik have "map_of (queue ?m1) k = None" "nextPlayIndex ?m1 \<le> k"
    by (auto simp: stalled_def update_conv')
  from tryPlayNext_missing[OF this] assms(1) show ?thesis
    by (simp add: Enqueue enqueue_def stalled_def tryPlayNext_frame)
next
  case (MarkAllEnqueued t)
  with assms have kt: "int k < t" by auto
  let ?m1 = "m\<lparr> allEnqueued := True, totalExpected := t \<rparr>"
  from assms(1) kt have "checkCompletion ?m1 = ?m1"
    by (intro checkCompletion_stalled[where k=k]) (auto simp: stalled_def)
  with assms(1) kt show ?thesis
    by (simp add: MarkAllEnqueued markAllEnqueued_def stalled_def)
next
  case (Onended now)
  let ?m0 = "m\<lparr> isPlaying := False \<rparr>"
  from assms(1) have c: "checkCompletion ?m0 = ?m0"
    by (intro checkCompletion_stalled[where k=k]) (auto simp: stalled_def)
  show ?thesis
  proof (cases "map_of (queue m) (nextPlayIndex m)")
    case None
    from assms(1) have "map_of (queue ?m0) k = None" "nextPlayIndex ?m0 \<le> k"
      by (auto simp: stalled_def)
    from tryPlayNext_missing[OF this] assms(1) None show ?thesis
      by (simp add: Onended onended_def c stalled_def tryPlayNext_frame)
  next
    case (Some b)
    from assms(1) have "map_of (queue m) k = None" "nextPlayIndex m \<le> k"
      by (auto simp: stalled_def)
    from tryPlayNext_missing[OF this] assms(1) Some show ?thesis
      by (simp add: Onended onended_def stalled_def tryPlayNext_frame)
  qed
next
  case (WaitForCompletion p)
  let ?m1 = "m\<lparr> completionResolve := Some p \<rparr>"
  from assms(1) have "checkCompletion ?m1 = ?m1"
    by (intro checkCompletion_stalled[where k=k]) (auto simp: stalled_def)
  with assms(1) show ?thesis
    by (simp add: WaitForCompletion waitForCompletion_def stalled_def)
next
  case Clear
  with assms show ?thesis by simp
qed

lemma stalled_run:
  assumes "stalled k m" and "Clear \<notin> set evs" and "k \<notin> fst ` set (enqueued evs)"
    and "\<forall>t \<in> set (totals evs). int k < t"
  shows "stalled k (run evs m)"
  using assms
proof (induction evs arbitrary: m)
  case Nil
  then show ?case by (simp add: run_def)
next
  case (Cons e evs)
  have "stalled k (step m e)"
  proof (rule stalled_step[OF Cons.prems(1)])
    show "e \<noteq> Clear" using Cons.prems(2) by auto
    show "\<forall>b now. e \<noteq> Enqueue k b now" using Cons.prems(3) by auto
    show "\<forall>t. e = MarkAllEnqueued t \<longrightarrow> int k < t" using Cons.prems(4) by auto
  qed
  moreover have "Clear \<notin> set evs" using Cons.prems(2) by auto
  moreover have "k \<notin> fst ` set (enqueued evs)" using Cons.prems(3) by (cases e) auto
  moreover have "\<forall>t \<in> set (totals evs). int k < t" using Cons.prems(4) by (cases e) auto
  ultimately have "stalled k (run evs (step m e))" by (rule Cons.IH)
  then show ?case by (simp add: run_def)
qed

lemma checkCompletion_frame:
  "queue (checkCompletion m) = queue m \<and> started (checkCompletion m) = started m \<and>
   nextPlayIndex (checkCompletion m) = nextPlayIndex m \<and>
   scheduledEndTime (checkCompletion m) = scheduledEndTime m \<and>
   isPlaying (checkCompletion m) = isPlaying m"
  by (simp add: checkCompletion_def completionCondition_def split: option.splits)

lemma tryPlayNext_order:
  assumes "map fst (started m) = map buf [0..<nextPlayIndex m]"
    and "\<forall>i b. map_of (queue m) i = Some b \<longrightarrow> b = buf i"
  shows "map fst (started (tryPlayNext now m)) = map buf [0..<nextPlayIndex (tryPlayNext now m)] \<and>
     (\<forall>j. map_of (queue (tryPlayNext now m)) j =
        (if nextPlayIndex m \<le> j \<and> j < nextPlayIndex (tryPlayNext now m) then None
         else map_of (queue m) j)) \<and>
     (\<forall>j. nextPlayIndex m \<le> j \<and> j < nextPlayIndex (tryPlayNext now m) \<longrightarrow>
        map_of (queue m) j \<noteq> None) \<and>
     nextPlayIndex m \<le> nextPlayIndex (tryPlayNext now m) \<and>
     map_of (queue (tryPlayNext now m)) (nextPlayIndex (tryPlayNext now m)) = None"
  using assms
proof (induction now m rule: tryPlayNext.induct)
  case (1 now m)
  show ?case
  proof (cases "map_of (queue m) (nextPlayIndex m)")
    case None
    with "1.prems" show ?thesis by (auto simp add: tryPlayNext_absent)
  next
    case (Some b)
    let ?m1 = "m\<lparr> queue := AList.delete (nextPlayIndex m) (queue m),
           started := started m @ [(b, max (now + 0.02) (scheduledEndTime m))],
           scheduledEndTime := max (now + 0.02) (scheduledEndTime m) + duration b,
           nextPlayIndex := nextPlayIndex m + 1,
           isPlaying := True \<rparr>"
    have eq: "tryPlayNext now m = tryPlayNext now ?m1"
      using Some by (rule tryPlayNext_present)
    from Some "1.prems"(2) have b: "b = buf (nextPlayIndex m)" by simp
    have p1: "map fst (started ?m1) = map buf [0..<nextPlayIndex ?m1]"
      using "1.prems"(1) b by simp
    have p2: "\<forall>i b. map_of (queue ?m1) i = Some b \<longrightarrow> b = buf i"
      using "1.prems"(2) by (simp add: delete_conv')
    note ih = "1.IH"[OF Some refl p1 p2, folded eq]
    define n' where "n' = nextPlayIndex (tryPlayNext now m)"
    have i1: "map fst (started (tryPlayNext now m)) = map buf [0..<n']"
      using ih[THEN conjunct1] by (simp add: n'_def)
    have i2: "\<And>j. map_of (queue (tryPlayNext now m)) j =
        (if Suc (nextPlayIndex m) \<le> j \<and> j < n' then None
         else if j = nextPlayIndex m then None else map_of (queue m) j)"
      using ih[THEN conjunct2, THEN conjunct1] by (simp add: n'_def delete_conv')
    have i3: "\<And>j. Suc (nextPlayIndex m) \<le> j \<Longrightarrow> j < n' \<Longrightarrow> map_of (queue m) j \<noteq> None"
      using ih[THEN conjunct2, THEN conjunct2, THEN conjunct1]
      by (auto simp: n'_def delete_conv' split: if_splits)
    have i4: "Suc (nextPlayIndex m) \<le> n'"
      using ih[THEN conjunct2, THEN conjunct2, THEN conjunct2, THEN conjunct1]
      by (simp add: n'_def)
    have i5: "map_of (queue (tryPlayNext now m)) n' = None"
      using ih[THEN conjunct2, THEN conjunct2, THEN conjunct2, THEN conjunct2]
      by (simp add: n'_def)
    have c2: "\<forall>j. map_of (queue (tryPlayNext now m)) j =
        (if nextPlayIndex m \<le> j \<and> j < n' then None else map_of (queue m) j)"
    proof
      fix j
      show "map_of (queue (tryPlayNext now m)) j =
        (if nextPlayIndex m \<le> j \<and> j < n' then None else map_of (queue m) j)"
        using i2[of j] i4 by (cases "j = nextPlayIndex m") auto
    qed
    have c3: "\<forall>j. nextPlayIndex m \<le> j \<and> j < n' \<longrightarrow> map_of (queue m) j \<noteq> None"
    proof (intro allI impI)
      fix j assume j: "nextPlayIndex m \<le> j \<and> j < n'"
      show "map_of (queue m) j \<noteq> None"
      proof (cases "j = nextPlayIndex m")
        case True
        with Some show ?thesis by simp
      next
        case False
        with j have "Suc (nextPlayIndex m) \<le> j" by simp
        with i3 j show ?thesis by blast
      qed
    qed
    from i1 c2 c3 i4 i5 show ?thesis unfolding n'_def[symmetric] by simp
  qed
qed

lemma in_order_absent: "in_order buf S m \<Longrightarrow> map_of (queue m) (nextPlayIndex m) = None"
  unfolding in_order_def by blast

lemma in_order_enqueue:
  assumes "in_order buf S m" and "i \<notin> S"
  shows "in_order buf (insert i S) (enqueue i (buf i) now m)"
proof -
  let ?m1 = "m\<lparr> queue := AList.update i (buf i) (queue m) \<rparr>"
  define m2 where "m2 = tryPlayNext now ?m1"
  define n where "n = nextPlayIndex m"
  define n' where "n' = nextPlayIndex m2"
  have a1: "map fst (started m) = map buf [0..<n]"
    and a2: "\<And>j. map_of (queue m) j \<noteq> None \<longleftrightarrow> j \<in> S \<and> n \<le> j"
    and a3: "\<And>j. j < n \<Longrightarrow> j \<in> S" and a4: "n \<notin> S"
    and a5: "\<And>j b. map_of (queue m) j = Some b \<Longrightarrow> b = buf j"
    using assms(1) unfolding in_order_def n_def by blast+
  have p1: "map fst (started ?m1) = map buf [0..<nextPlayIndex ?m1]"
    using a1 by (simp add: n_def)
  have p2: "\<forall>j b. map_of (queue ?m1) j = Some b \<longrightarrow> b = buf j"
    using a5 by (simp add: update_conv')
  note t = tryPlayNext_order[OF p1 p2, of now, folded m2_def]
  have t1: "map fst (started m2) = map buf [0..<n']"
    using t[THEN conjunct1] by (simp add: n'_def)
  have t2: "\<And>j. map_of (queue m2) j = (if n \<le> j \<and> j < n' then None
              else if j = i then Some (buf i) else map_of (queue m) j)"
    using t[THEN conjunct2, THEN conjunct1] by (simp add: n'_def n_def update_conv')
  have t3: "\<And>j. n \<le> j \<Longrightarrow> j < n' \<Longrightarrow> j = i \<or> map_of (queue m) j \<noteq> None"
    using t[THEN conjunct2, THEN conjunct2, THEN conjunct1]
    by (auto simp: n'_def n_def update_conv' split: if_splits)
  have t4: "n \<le> n'"
    using t[THEN conjunct2, THEN conjunct2, THEN conjunct2, THEN conjunct1]
    by (simp add: n'_def n_def)
  have t5: "map_of (queue m2) n' = None"
    using t[THEN conjunct2, THEN conjunct2, THEN conjunct2, THEN conjunct2]
    by (simp add: n'_def)
  have ge: "n \<le> i" using a3[of i] assms(2) by (cases "i < n") auto
  have c2: "\<forall>j. map_of (queue m2) j \<noteq> None \<longleftrightarrow> j \<in> insert i S \<and> n' \<le> j"
  proof
    fix j
    show "map_of (queue m2) j \<noteq> None \<longleftrightarrow> j \<in> insert i S \<and> n' \<le> j"
    proof (cases "n \<le> j \<and> j < n'")
      case True
      then show ?thesis using t2[of j] by simp
    next
      case False
      show ?thesis
      proof (cases "j = i")
        case True
        with False ge show ?thesis using t2[of j] by auto
      next
        case ji: False
        have "map_of (queue m2) j = map_of (queue m) j" using t2[of j] False ji by simp
        moreover have "j \<in> S \<and> n \<le> j \<longleftrightarrow> j \<in> insert i S \<and> n' \<le> j"
          using False ji t4 by auto
        ultimately show ?thesis using a2[of j] by simp
      qed
    qed
  qed
  have c3: "\<forall>j < n'. j \<in> insert i S"
  proof (intro allI impI)
    fix j assume "j < n'"
    show "j \<in> insert i S"
    proof (cases "j < n")
      case True
      then show ?thesis using a3 by simp
    next
      case False
      with \<open>j < n'\<close> t3[of j] a2[of j] show ?thesis by auto
    qed
  qed
  have c4: "n' \<notin> insert i S"
  proof
    assume "n' \<in> insert i S"
    then have "map_of (queue m2) n' \<noteq> None" using c2[THEN spec, of n'] by blast
    with t5 show False by simp
  qed
  have c5: "\<forall>j b. map_of (queue m2) j = Some b \<longrightarrow> b = buf j"
    using t2 a5 by (auto split: if_splits)
  from t1 c2 c3 c4 c5 show ?thesis
    unfolding in_order_def enqueue_def m2_def[symmetric] n'_def[symmetric] by blast
qed

lemma in_order_step:
  assumes "in_order buf S m" and "e \<noteq> Clear" and "enqueued [e] = []"
  shows "in_order buf S (step m e)"
proof (cases e)
  case (Enqueue i b now)
  with assms show ?thesis by simp
next
  case (MarkAllEnqueued t)
  with assms show ?thesis
    by (simp add: markAllEnqueued_def in_order_def checkCompletion_frame)
next
  case (Onended now)
  from assms(1) have a: "map_of (queue m) (nextPlayIndex m) = None" by (rule in_order_absent)
  then have "map_of (queue (checkCompletion (m\<lparr>isPlaying := False\<rparr>)))
       (nextPlayIndex (checkCompletion (m\<lparr>isPlaying := False\<rparr>))) = None"
    by (simp add: checkCompletion_frame)
  then have "onended now m = checkCompletion (m\<lparr>isPlaying := False\<rparr>)"
    using a by (simp add: onended_def tryPlayNext_absent)
  with assms(1) show ?thesis
    by (simp add: Onended in_order_def checkCompletion_frame)
next
  case (WaitForCompletion p)
  with assms show ?thesis
    by (simp add: waitForCompletion_def in_order_def checkCompletion_frame)
next
  case Clear
  with assms show ?thesis by simp
qed

lemma in_order_run:
  assumes "in_order buf S m" and "Clear \<notin> set evs"
    and "distinct (map fst (enqueued evs))" and "fst ` set (enqueued evs) \<inter> S = {}"
    and "\<forall>(i, b) \<in> set (enqueued evs). b = buf i"
  shows "in_order buf (S \<union> fst ` set (enqueued evs)) (run evs m)"
  using assms
proof (induction evs arbitrary: m S)
  case Nil
  then show ?case by (simp add: run_def)
next
  case (Cons e evs)
  have nc: "e \<noteq> Clear" "Clear \<notin> set evs" using Cons.prems(2) by auto
  show ?case
  proof (cases e)
    case (Enqueue i b now)
    from Cons.prems(5) Enqueue have b: "b = buf i" by simp
    from Cons.prems(4) Enqueue have i: "i \<notin> S" by auto
    have 1: "in_order buf (insert i S) (step m e)"
      using in_order_enqueue[OF Cons.prems(1) i] Enqueue b by simp
    have 2: "distinct (map fst (enqueued evs))" using Cons.prems(3) Enqueue by simp
    have 3: "fst ` set (enqueued evs) \<inter> insert i S = {}"
      using Cons.prems(3,4) Enqueue by auto
    have 4: "\<forall>(i, b) \<in> set (enqueued evs). b = buf i" using Cons.prems(5) Enqueue by simp
    from Cons.IH[OF 1 nc(2) 2 3 4] Enqueue show ?thesis by (simp add: run_def)
  next
    case (MarkAllEnqueued t)
    then have q: "enqueued (e # evs) = enqueued evs" "enqueued [e] = []" by simp_all
    from Cons.IH[OF in_order_step[OF Cons.prems(1) nc(1) q(2)] nc(2)] Cons.prems(3-5) q
    show ?thesis by (simp add: run_def)
  next
    case (Onended now)
    then have q: "enqueued (e # evs) = enqueued evs" "enqueued [e] = []" by simp_all
    from Cons.IH[OF in_order_step[OF Cons.prems(1) nc(1) q(2)] nc(2)] Cons.prems(3-5) q
    show ?thesis by (simp add: run_def)
  next
    case (WaitForCompletion p)
    then have q: "enqueued (e # evs) = enqueued evs" "enqueued [e] = []" by simp_all
    from Cons.IH[OF in_order_step[OF Cons.prems(1) nc(1) q(2)] nc(2)] Cons.prems(3-5) q
    show ?thesis by (simp add: run_def)
  next
    case Clear
    with nc show ?thesis by simp
  qed
qed

lemma in_order_constructor: "in_order buf {} constructor"
  by (simp add: in_order_def constructor_def)

lemma enqueued_take: "\<exists>k. enqueued (take n evs) = take k (enqueued evs)"
proof (induction evs arbitrary: n)
  case Nil
  then show ?case by simp
next
  case (Cons e evs)
  show ?case
  proof (cases n)
    case 0
    then show ?thesis by (intro exI[of _ 0]) simp
  next
    case (Suc n')
    from Cons.IH[of n'] obtain k where k: "enqueued (take n' evs) = take k (enqueued evs)" ..
    show ?thesis
    proof (cases e)
      case (Enqueue i b t)
      with k Suc show ?thesis by (intro exI[of _ "Suc k"]) simp
    qed (use k Suc in \<open>auto intro: exI[of _ k]\<close>)
  qed
qed

lemma totals_take: "set (totals (take n evs)) \<subseteq> set (totals evs)"
proof (induction evs arbitrary: n)
  case Nil
  then show ?case by simp
next
  case (Cons e evs)
  show ?case
  proof (cases n)
    case 0
    then show ?thesis by simp
  next
    case (Suc n')
    with Cons.IH[of n'] show ?thesis by (cases e) auto
  qed
qed

lemma stalled_constructor: "stalled k constructor"
  by (simp add: stalled_def constructor_def)

text \<open>
  Claim C5. Take any sequence of calls on a fresh manager in which \<open>clear\<close> is never
  called, index \<open>k\<close> is never admitted, and every total recorded by \<open>markAllEnqueued\<close>
  exceeds \<open>k\<close>. Then after every prefix of the sequence the cursor \<open>nextPlayIndex\<close> has not
  passed \<open>k\<close>, the completion condition is false, and no \<open>waitForCompletion\<close> promise has
  been resolved: the turn stalls on the missing index.
\<close>

theorem missing_index_stalls:
  assumes "Clear \<notin> set evs" and "k \<notin> fst ` set (enqueued evs)"
    and "\<forall>t \<in> set (totals evs). int k < t"
  shows "nextPlayIndex (run (take n evs) constructor) \<le> k \<and>
         \<not> completionCondition (run (take n evs) constructor) \<and>
         resolved (run (take n evs) constructor) = []"
proof -
  have 1: "Clear \<notin> set (take n evs)" using assms(1) by (auto dest: in_set_takeD)
  obtain j where j: "enqueued (take n evs) = take j (enqueued evs)"
    using enqueued_take by blast
  have 2: "k \<notin> fst ` set (enqueued (take n evs))"
    using assms(2) unfolding j by (auto dest: in_set_takeD)
  have 3: "\<forall>t \<in> set (totals (take n evs)). int k < t"
    using assms(3) totals_take[of n evs] by blast
  have "stalled k (run (take n evs) constructor)"
    using stalled_constructor 1 2 3 by (rule stalled_run)
  then show ?thesis by (auto simp: stalled_def completionCondition_def)
qed

text \<open>
  Claim C4. In every manager state, \<open>clear\<close> empties the queue, resets \<open>nextPlayIndex\<close>
  to 0 and \<open>scheduledEndTime\<close> to 0 (their values in the constructor), and resolves the
  pending \<open>waitForCompletion\<close> promise, if there is one, at once: it is appended to the
  resolved promises and the pending slot is emptied.
\<close>

theorem clear_resets:
  "queue (clear m) = [] \<and>
   nextPlayIndex (clear m) = 0 \<and> nextPlayIndex (clear m) = nextPlayIndex constructor \<and>
   scheduledEndTime (clear m) = 0 \<and> scheduledEndTime (clear m) = scheduledEndTime constructor \<and>
   completionResolve (clear m) = None \<and>
   resolved (clear m) = resolved m @ (case completionResolve m of Some p \<Rightarrow> [p] | None \<Rightarrow> [])"
  by (simp add: clear_def constructor_def split: option.splits)

lemma in_order_prefix:
  assumes "Clear \<notin> set evs" and "distinct (map fst (enqueued evs))"
    and "\<forall>(i, b) \<in> set (enqueued evs). b = buf i"
  shows "in_order buf (fst ` set (enqueued (take n evs))) (run (take n evs) constructor)"
proof -
  obtain j where j: "enqueued (take n evs) = take j (enqueued evs)"
    using enqueued_take by blast
  have 1: "Clear \<notin> set (take n evs)" using assms(1) by (auto dest: in_set_takeD)
  have 2: "distinct (map fst (enqueued (take n evs)))"
    using assms(2) unfolding j by (simp add: take_map[symmetric])
  have 3: "\<forall>(i, b) \<in> set (enqueued (take n evs)). b = buf i"
    using assms(3) unfolding j by (auto dest: in_set_takeD)
  from in_order_run[OF in_order_constructor 1 2 _ 3] show ?thesis by simp
qed

lemma in_order_keys:
  assumes "in_order buf S m"
  shows "fst ` set (queue m) = S - {0..<nextPlayIndex m}"
proof -
  have k: "\<And>j. j \<in> dom (map_of (queue m)) \<longleftrightarrow> j \<in> S \<and> nextPlayIndex m \<le> j"
    using assms unfolding in_order_def dom_def by blast
  have "dom (map_of (queue m)) = S - {0..<nextPlayIndex m}"
  proof (rule set_eqI)
    fix j
    show "j \<in> dom (map_of (queue m)) \<longleftrightarrow> j \<in> S - {0..<nextPlayIndex m}"
      unfolding k[of j] by auto
  qed
  then show ?thesis by (simp add: dom_map_of_conv_image_fst)
qed

lemma in_order_full:
  assumes "in_order buf {0..<N} m"
  shows "nextPlayIndex m = N"
proof -
  have a: "\<And>j. j < nextPlayIndex m \<Longrightarrow> j < N" and b: "\<not> nextPlayIndex m < N"
    using assms unfolding in_order_def by auto
  show ?thesis
  proof (rule ccontr)
    assume "nextPlayIndex m \<noteq> N"
    with b have "N < nextPlayIndex m" by simp
    from a[OF this] show False by simp
  qed
qed

text \<open>
  Claim C2. Take any sequence of calls on a fresh manager without \<open>clear\<close>, in which the
  admitted indices, in arrival order, are a permutation of \<open>0, ..., N - 1\<close> and index \<open>i\<close>
  carries the buffer \<open>buf i\<close>; \<open>onended\<close>, \<open>markAllEnqueued\<close> and \<open>waitForCompletion\<close> may be
  interleaved at will. Then the buffers started are \<open>buf 0, ..., buf (N - 1)\<close> in this
  order, the cursor ends at \<open>N\<close> and the queue ends empty. After every prefix of the
  sequence, the buffers started so far are those of the indices below the cursor, in index
  order (so a buffer is only ever started when its index is the cursor), and the queue holds
  exactly the admitted indices that are not below the cursor (an entry leaves the queue when
  it is played).
\<close>

theorem playback_in_index_order:
  assumes "Clear \<notin> set evs"
    and "mset (map fst (enqueued evs)) = mset [0..<N]"
    and "\<forall>(i, b) \<in> set (enqueued evs). b = buf i"
  shows "map fst (started (run evs constructor)) = map buf [0..<N] \<and>
         nextPlayIndex (run evs constructor) = N \<and>
         queue (run evs constructor) = [] \<and>
         (\<forall>n. map fst (started (run (take n evs) constructor)) =
                 map buf [0..<nextPlayIndex (run (take n evs) constructor)] \<and>
               fst ` set (queue (run (take n evs) constructor)) =
                 fst ` set (enqueued (take n evs)) -
                 {0..<nextPlayIndex (run (take n evs) constructor)})"
proof -
  have d: "distinct (map fst (enqueued evs))"
    using assms(2) mset_eq_imp_distinct_iff[of "map fst (enqueued evs)" "[0..<N]"] by simp
  have s: "fst ` set (enqueued evs) = {0..<N}"
    using mset_eq_setD[OF assms(2)] by simp
  have pre: "\<And>n. in_order buf (fst ` set (enqueued (take n evs))) (run (take n evs) constructor)"
    using assms(1) d assms(3) by (rule in_order_prefix)
  have fin: "in_order buf {0..<N} (run evs constructor)"
    using pre[of "length evs"] s by simp
  have n: "nextPlayIndex (run evs constructor) = N" using fin by (rule in_order_full)
  have st: "map fst (started (run evs constructor)) = map buf [0..<N]"
    using fin n by (simp add: in_order_def)
  have "fst ` set (queue (run evs constructor)) = {}"
    using in_order_keys[OF fin] n by simp
  then have q: "queue (run evs constructor) = []" by simp
  have "\<forall>n. map fst (started (run (take n evs) constructor)) =
                 map buf [0..<nextPlayIndex (run (take n evs) constructor)] \<and>
               fst ` set (queue (run (take n evs) constructor)) =
                 fst ` set (enqueued (take n evs)) -
                 {0..<nextPlayIndex (run (take n evs) constructor)}"
  proof
    fix n
    from pre[of n] in_order_keys[OF pre[of n]]
    show "map fst (started (run (take n evs) constructor)) =
                 map buf [0..<nextPlayIndex (run (take n evs) constructor)] \<and>
               fst ` set (queue (run (take n evs) constructor)) =
                 fst ` set (enqueued (take n evs)) -
                 {0..<nextPlayIndex (run (take n evs) constructor)}"
      by (simp add: in_order_def)
  qed
  with st n q show ?thesis by blast
qed

lemma tryPlayNext_schedule:
  "\<exists>bs. map (map_of (queue m)) [nextPlayIndex m..<nextPlayIndex (tryPlayNext now m)] = map Some bs \<and>
     started (tryPlayNext now m) = started m @ gapless now (scheduledEndTime m) bs \<and>
     scheduledEndTime (tryPlayNext now m) = gapless_end now (scheduledEndTime m) bs \<and>
     nextPlayIndex m \<le> nextPlayIndex (tryPlayNext now m)"
proof (induction now m rule: tryPlayNext.induct)
  case (1 now m)
  show ?case
  proof (cases "map_of (queue m) (nextPlayIndex m)")
    case None
    then show ?thesis by (intro exI[of _ "[]"]) (simp add: tryPlayNext_absent)
  next
    case (Some b)
    let ?m1 = "m\<lparr> queue := AList.delete (nextPlayIndex m) (queue m),
           started := started m @ [(b, max (now + 0.02) (scheduledEndTime m))],
           scheduledEndTime := max (now + 0.02) (scheduledEndTime m) + duration b,
           nextPlayIndex := nextPlayIndex m + 1,
           isPlaying := True \<rparr>"
    have eq: "tryPlayNext now m = tryPlayNext now ?m1"
      using Some by (rule tryPlayNext_present)
    define n' where "n' = nextPlayIndex (tryPlayNext now m)"
    from "1.IH"[OF Some refl, folded eq, folded n'_def]
    obtain bs where
      b1: "map (map_of (queue ?m1)) [nextPlayIndex ?m1..<n'] = map Some bs" and
      b2: "started (tryPlayNext now m) = started ?m1 @ gapless now (scheduledEndTime ?m1) bs" and
      b3: "scheduledEndTime (tryPlayNext now m) = gapless_end now (scheduledEndTime ?m1) bs" and
      b4: "nextPlayIndex ?m1 \<le> n'"
      by blast
    have lt: "nextPlayIndex m < n'" using b4 by simp
    have e0: "map (map_of (AList.delete (nextPlayIndex m) (queue m))) [Suc (nextPlayIndex m)..<n'] =
          map (map_of (queue m)) [Suc (nextPlayIndex m)..<n']"
      by (rule map_cong) (auto simp: delete_conv')
    have e1: "map (map_of (queue m)) [Suc (nextPlayIndex m)..<n'] = map Some bs"
      using b1 unfolding e0[symmetric] by simp
    have c1: "map (map_of (queue m)) [nextPlayIndex m..<n'] = map Some (b # bs)"
      using e1 Some lt by (simp add: upt_conv_Cons)
    have c2: "started (tryPlayNext now m) = started m @ gapless now (scheduledEndTime m) (b # bs)"
      using b2 by simp
    have c3: "scheduledEndTime (tryPlayNext now m) = gapless_end now (scheduledEndTime m) (b # bs)"
      using b3 by simp
    from c1 c2 c3 lt show ?thesis unfolding n'_def[symmetric] by (intro exI[of _ "b # bs"]) simp
  qed
qed

lemma gapless_touching:
  "\<forall>b \<in> set bs. 0 \<le> duration b \<Longrightarrow> touching (gapless now prevEnd bs)"
proof (induction bs arbitrary: prevEnd)
  case Nil
  then show ?case by simp
next
  case (Cons b bs)
  show ?case
  proof (cases bs)
    case Nil
    then show ?thesis by simp
  next
    case (Cons b' bs')
    have "touching (gapless now (max (now + 0.02) prevEnd + duration b) bs)"
      using Cons.IH Cons.prems by simp
    moreover have "max (now + 0.02) (max (now + 0.02) prevEnd + duration b) =
        max (now + 0.02) prevEnd + duration b"
      using Cons.prems by (simp add: max_def)
    ultimately show ?thesis using Cons by simp
  qed
qed

lemma gapless_Nil: "gapless now prevEnd bs = [] \<longleftrightarrow> bs = []"
  by (cases bs) simp_all

lemma tryPlayNext_quiet:
  assumes "started (tryPlayNext now m) = []"
  shows "started m = [] \<and> scheduledEndTime (tryPlayNext now m) = scheduledEndTime m"
proof -
  from tryPlayNext_schedule[of m now] obtain bs where
    1: "started (tryPlayNext now m) = started m @ gapless now (scheduledEndTime m) bs" and
    2: "scheduledEndTime (tryPlayNext now m) = gapless_end now (scheduledEndTime m) bs"
    by blast
  from 1 assms have "started m = []" "bs = []" by (simp_all add: gapless_Nil)
  with 2 show ?thesis by simp
qed

lemma quiet_step:
  assumes "started m = [] \<longrightarrow> scheduledEndTime m = 0"
  shows "started (step m e) = [] \<longrightarrow> scheduledEndTime (step m e) = 0"
proof (cases e)
  case (Enqueue i b now)
  show ?thesis
    using tryPlayNext_quiet[of now "m\<lparr>queue := AList.update i b (queue m)\<rparr>"] assms
    by (auto simp: Enqueue enqueue_def)
next
  case (MarkAllEnqueued t)
  with assms show ?thesis by (simp add: markAllEnqueued_def checkCompletion_frame)
next
  case (Onended now)
  show ?thesis
  proof (cases "map_of (queue m) (nextPlayIndex m)")
    case None
    then show ?thesis
      using tryPlayNext_quiet[of now "checkCompletion (m\<lparr>isPlaying := False\<rparr>)"] assms
      by (auto simp: Onended onended_def checkCompletion_frame)
  next
    case (Some b)
    then show ?thesis
      using tryPlayNext_quiet[of now m] assms
      by (auto simp: Onended onended_def)
  qed
next
  case (WaitForCompletion p)
  with assms show ?thesis by (simp add: waitForCompletion_def checkCompletion_frame)
next
  case Clear
  then show ?thesis by (simp add: clear_def Let_def split: option.splits)
qed

lemma quiet_run:
  "started m = [] \<longrightarrow> scheduledEndTime m = 0 \<Longrightarrow>
   started (run evs m) = [] \<longrightarrow> scheduledEndTime (run evs m) = 0"
proof (induction evs arbitrary: m)
  case Nil
  then show ?case by (simp add: run_def)
next
  case (Cons e evs)
  from Cons.IH[OF quiet_step[OF Cons.prems, of e]] show ?case by (simp add: run_def)
qed

lemma all_ready_schedule:
  assumes "Clear \<notin> set evs"
    and "mset (map fst (enqueued evs)) = mset [1..<N]" and "0 < N"
    and "\<forall>(i, b) \<in> set (enqueued evs). b = buf i"
  shows "started (enqueue 0 (buf 0) now (run evs constructor)) = gapless now 0 (map buf [0..<N]) \<and>
         scheduledEndTime (enqueue 0 (buf 0) now (run evs constructor)) =
           gapless_end now 0 (map buf [0..<N])"
proof -
  define m0 where "m0 = run evs constructor"
  define m1 where "m1 = m0\<lparr>queue := AList.update 0 (buf 0) (queue m0)\<rparr>"
  define m2 where "m2 = tryPlayNext now m1"
  have d: "distinct (map fst (enqueued evs))"
    using assms(2) mset_eq_imp_distinct_iff[of "map fst (enqueued evs)" "[1..<N]"] by simp
  have s: "fst ` set (enqueued evs) = {1..<N}"
    using mset_eq_setD[OF assms(2)] by simp
  have io: "in_order buf {1..<N} m0"
    using in_order_run[OF in_order_constructor assms(1) d _ assms(4)] s by (simp add: m0_def)
  have n0: "nextPlayIndex m0 = 0"
  proof (rule ccontr)
    assume "nextPlayIndex m0 \<noteq> 0"
    then have "0 < nextPlayIndex m0" by simp
    with io have "(0::nat) \<in> {1..<N}" unfolding in_order_def by blast
    then show False by simp
  qed
  have st0: "started m0 = []" using io n0 by (simp add: in_order_def)
  have e0: "scheduledEndTime m0 = 0"
    using quiet_run[of constructor evs] st0 by (simp add: m0_def constructor_def)
  have m2: "m2 = enqueue 0 (buf 0) now m0" by (simp add: m2_def m1_def enqueue_def)
  have "insert 0 {1..<N} = {0..<N}" using assms(3) by auto
  then have io2: "in_order buf {0..<N} m2"
    using in_order_enqueue[OF io, of 0 now] by (simp add: m2)
  have n2: "nextPlayIndex m2 = N" using io2 by (rule in_order_full)
  from tryPlayNext_schedule[of m1 now] obtain bs where
    1: "map (map_of (queue m1)) [0..<N] = map Some bs" and
    2: "started m2 = gapless now 0 bs" and
    3: "scheduledEndTime m2 = gapless_end now 0 bs"
    unfolding m2_def[symmetric] n2 by (auto simp: m1_def n0 st0 e0)
  have q1: "\<And>j b. map_of (queue m1) j = Some b \<Longrightarrow> b = buf j"
    using io unfolding in_order_def m1_def by (auto simp: update_conv' split: if_splits)
  have len: "length bs = N" using arg_cong[OF 1, of length] by simp
  have bs: "bs = map buf [0..<N]"
  proof (rule nth_equalityI)
    show "length bs = length (map buf [0..<N])" using len by simp
  next
    fix j assume "j < length bs"
    then have j: "j < N" using len by simp
    have "map (map_of (queue m1)) [0..<N] ! j = map Some bs ! j" using 1 by simp
    then have "map_of (queue m1) j = Some (bs ! j)" using j len by simp
    from q1[OF this] show "bs ! j = map buf [0..<N] ! j" using j by simp
  qed
  from 2 3 show ?thesis unfolding bs m2 m0_def by simp
qed

text \<open>
  Claim C3. Every call of \<open>tryPlayNext\<close>, in any state \<open>m\<close> and at any clock value \<open>t\<close>,
  starts the buffers \<open>bs\<close> found at the consecutive indices from the cursor on, at the
  times the rule \<open>gapless\<close> gives: each at the maximum of the clock plus 0.02 and the
  previous scheduled end time, which then becomes that start plus the buffer's duration.
  Consequently, when the buffers of the indices \<open>1, ..., N - 1\<close> have been admitted (in any
  order) before index 0 arrives at clock value \<open>now\<close>, and no duration is negative, all \<open>N\<close>
  buffers are scheduled by that rule from \<open>now\<close> and consecutive buffers touch: each starts
  exactly where the previous one ends.
\<close>

theorem gapless_scheduling:
  assumes "Clear \<notin> set evs"
    and "mset (map fst (enqueued evs)) = mset [1..<N]" and "0 < N"
    and "\<forall>(i, b) \<in> set (enqueued evs). b = buf i"
    and "\<forall>i<N. 0 \<le> duration (buf i)"
  shows "(\<exists>bs. map (map_of (queue m)) [nextPlayIndex m..<nextPlayIndex (tryPlayNext t m)] = map Some bs \<and>
            started (tryPlayNext t m) = started m @ gapless t (scheduledEndTime m) bs \<and>
            scheduledEndTime (tryPlayNext t m) = gapless_end t (scheduledEndTime m) bs) \<and>
         started (enqueue 0 (buf 0) now (run evs constructor)) = gapless now 0 (map buf [0..<N]) \<and>
         scheduledEndTime (enqueue 0 (buf 0) now (run evs constructor)) =
           gapless_end now 0 (map buf [0..<N]) \<and>
         touching (started (enqueue 0 (buf 0) now (run evs constructor)))"
proof -
  have a: "\<exists>bs. map (map_of (queue m)) [nextPlayIndex m..<nextPlayIndex (tryPlayNext t m)] = map Some bs \<and>
            started (tryPlayNext t m) = started m @ gapless t (scheduledEndTime m) bs \<and>
            scheduledEndTime (tryPlayNext t m) = gapless_end t (scheduledEndTime m) bs"
    using tryPlayNext_schedule[of m t] by blast
  note b = all_ready_schedule[OF assms(1-4), of now]
  have "\<forall>b \<in> set (map buf [0..<N]). 0 \<le> duration b" using assms(5) by simp
  then have "touching (gapless now 0 (map buf [0..<N]))" by (rule gapless_touching)
  then have c: "touching (started (enqueue 0 (buf 0) now (run evs constructor)))"
    using b by simp
  from a b c show ?thesis by blast
qed

text \<open>
  The theorem at a concrete turn: three buffers, indices 2 and 1 admitted before index 0.
\<close>

theorem gapless_scheduling_witness:
  "started (enqueue 0 \<lparr>payload = 0, duration = 1\<rparr> (1/2)
      (run [Enqueue 2 \<lparr>payload = 2, duration = 3\<rparr> (1/10),
            Enqueue 1 \<lparr>payload = 1, duration = 2\<rparr> (3/10)] constructor)) =
     gapless (1/2) 0 [\<lparr>payload = 0, duration = 1\<rparr>, \<lparr>payload = 1, duration = 2\<rparr>,
                      \<lparr>payload = 2, duration = 3\<rparr>] \<and>
   touching (started (enqueue 0 \<lparr>payload = 0, duration = 1\<rparr> (1/2)
      (run [Enqueue 2 \<lparr>payload = 2, duration = 3\<rparr> (1/10),
            Enqueue 1 \<lparr>payload = 1, duration = 2\<rparr> (3/10)] constructor)))"
proof -
  let ?evs = "[Enqueue 2 \<lparr>payload = 2, duration = 3\<rparr> (1/10),
               Enqueue 1 \<lparr>payload = 1, duration = 2\<rparr> (3/10)]"
  let ?buf = "\<lambda>i::nat. \<lparr>payload = i, duration = 1 + real i\<rparr>"
  have h1: "Clear \<notin> set ?evs" by simp
  have h2: "mset (map fst (enqueued ?evs)) = mset [1..<3]" by (simp add: upt_rec)
  have h3: "(0::nat) < 3" by simp
  have h4: "\<forall>(i, b) \<in> set (enqueued ?evs). b = ?buf i" by simp
  have h5: "\<forall>i<3. 0 \<le> duration (?buf i)" by simp
  show ?thesis
    using gapless_scheduling[OF h1 h2 h3 h4 h5, of constructor 0 "1/2"]
    by (simp add: upt_rec)
qed

text \<open>
  The theorem at a concrete turn: arrival order 1, 2, 0 with other calls interleaved.
\<close>

theorem playback_in_index_order_witness:
  "map fst (started (run [Enqueue 1 \<lparr>payload = 1, duration = 2\<rparr> (1/10), Onended (2/10),
                          Enqueue 2 \<lparr>payload = 2, duration = 3\<rparr> (3/10),
                          Enqueue 0 \<lparr>payload = 0, duration = 1\<rparr> (1/2),
                          MarkAllEnqueued 3, WaitForCompletion 7, Onended 2] constructor)) =
     [\<lparr>payload = 0, duration = 1\<rparr>, \<lparr>payload = 1, duration = 2\<rparr>, \<lparr>payload = 2, duration = 3\<rparr>]"
proof -
  let ?evs = "[Enqueue 1 \<lparr>payload = 1, duration = 2\<rparr> (1/10), Onended (2/10),
                          Enqueue 2 \<lparr>payload = 2, duration = 3\<rparr> (3/10),
                          Enqueue 0 \<lparr>payload = 0, duration = 1\<rparr> (1/2),
                          MarkAllEnqueued 3, WaitForCompletion 7, Onended 2]"
  let ?buf = "\<lambda>i::nat. \<lparr>payload = i, duration = 1 + real i\<rparr>"
  have h1: "Clear \<notin> set ?evs" by simp
  have h2: "mset (map fst (enqueued ?evs)) = mset [0..<3]" by (simp add: upt_rec)
  have h3: "\<forall>(i, b) \<in> set (enqueued ?evs). b = ?buf i" by simp
  show ?thesis
    using playback_in_index_order[OF h1 h2 h3]
    by (simp add: upt_rec)
qed

text \<open>
  The theorem at a concrete turn of three sentences in which index 1 never arrives.
\<close>

theorem missing_index_stalls_witness:
  "nextPlayIndex (run [WaitForCompletion 7, Enqueue 0 \<lparr>payload = 0, duration = 1\<rparr> (1/2),
                       Enqueue 2 \<lparr>payload = 2, duration = 3\<rparr> 1, Onended 2,
                       MarkAllEnqueued 3, Onended 3] constructor) \<le> 1 \<and>
   resolved (run [WaitForCompletion 7, Enqueue 0 \<lparr>payload = 0, duration = 1\<rparr> (1/2),
                       Enqueue 2 \<lparr>payload = 2, duration = 3\<rparr> 1, Onended 2,
                       MarkAllEnqueued 3, Onended 3] constructor) = []"
proof -
  let ?evs = "[WaitForCompletion 7, Enqueue 0 \<lparr>payload = 0, duration = 1\<rparr> (1/2),
                       Enqueue 2 \<lparr>payload = 2, duration = 3\<rparr> 1, Onended 2,
                       MarkAllEnqueued 3, Onended 3]"
  have h1: "Clear \<notin> set ?evs" by simp
  have h2: "1 \<notin> fst ` set (enqueued ?evs)" by simp
  have h3: "\<forall>t \<in> set (totals ?evs). int 1 < t" by simp
  show ?thesis
    using missing_index_stalls[OF h1 h2 h3, of 6]
    by simp
qed

section \<open>The chat route: properties\<close>

lemma abort_feed_contents: "abort_feed c (map Content deltas) = feed c deltas"
  by (induction deltas arbitrary: c) (simp_all add: case_prod_beta)

text \<open>
  The second server file, serving a client that stays connected, answers with
  \<open>chat_stream\<close>: the \<open>close\<close> of the request does not touch its flag.
\<close>

lemma abort_feed_posted:
  "(let (c, evs) = abort_feed chat_start (posted deltas) in evs @ on_end c) = chat_stream deltas"
  by (simp add: posted_def chat_stream_def abort_feed_contents)

lemma close_feed_aborted:
  "aborted c \<Longrightarrow> close_feed c ins = (c\<lparr> aborted := True \<rparr>, [])"
proof (induction ins arbitrary: c)
  case Nil
  then show ?case by simp
next
  case (Cons i ins)
  from Cons.IH[of c] Cons.IH[of "c\<lparr> aborted := True \<rparr>"] Cons.prems
  show ?case by (cases i) simp_all
qed

text \<open>
  \<open>server.js\<close> writes no event at all for a POST request: its flag is set before the
  first delta arrives, so the read loop and the flush are both skipped.
\<close>

lemma server_js_stream_silent: "server_js_stream deltas = []"
  by (simp add: server_js_stream_def posted_def close_feed_aborted on_end_def)

text \<open>
  The segmentation of the earlier server variant when its flag is not set: the boundary
  after "Hello world." (12 characters, fewer than 15) is not cut.
\<close>

lemma extractSentences_keeps_short:
  "extractSentences ''Hello world. This is a test.'' = ([], ''Hello world. This is a test.'')"
  by code_simp

text \<open>
  Claim C7 at its own inputs. \<open>server.js\<close> and the earlier server variant have set
  \<open>aborted\<close> on the \<open>close\<close> of the request before the first delta arrives: for
  "Hello world. This is a test." and for "Partial thought", each followed by the end of
  the stream, they write no sentence unit and no other event. The second server file,
  whose loop body and flush are those of \<open>server.js\<close>, writes the two units
  "Hello world." (index 0) and "This is a test." (index 1), and the one unit
  "Partial thought" from the flush.
\<close>

theorem close_listener_silences_stream:
  "server_js_stream [''Hello world. This is a test.''] = [] \<and>
   server_js_stream [''Partial thought''] = [] \<and>
   legacy_stream [''Hello world. This is a test.''] = [] \<and>
   legacy_stream [''Partial thought''] = [] \<and>
   chat_stream [''Hello world. This is a test.''] =
     [Token ''Hello world. This is a test.'',
      Sentence 0 ''Hello world.'', Sentence 1 ''This is a test.'', Done 2] \<and>
   chat_stream [''Partial thought''] =
     [Token ''Partial thought'', Sentence 0 ''Partial thought'', Done 1]"
  by code_simp

text \<open>
  Claim C6 at the deltas "<think>a", "b</think>c<think>d", "e</think>f". The second
  delta ends hidden mode although it ends inside an unmatched start marker, and the
  third delta is forwarded whole, hidden text and end marker included.
\<close>

theorem hidden_mode_lost:
  "chat_stream [''<think>a'', ''b</think>c<think>d'', ''e</think>f''] =
     [Token ''c'', Token ''e</think>f'', Sentence 0 ''ce</think>f'', Done 1] \<and>
   insideThinking (fst (feed chat_start [''<think>a'', ''b</think>c<think>d''])) = False"
  by code_simp

text \<open>
  The two examples of claim C6 hold: the span in one delta, and the same span split
  across two deltas, both forward "visible text" only.
\<close>

lemma hidden_span_examples:
  "chat_stream [''<think>secret</think>visible text''] =
     [Token ''visible text'', Sentence 0 ''visible text'', Done 1] \<and>
   chat_stream [''<think>sec'', ''ret</think>visible text''] =
     [Token ''visible text'', Sentence 0 ''visible text'', Done 1]"
  by code_simp

section \<open>The voice activity detector: properties\<close>

lemma frames_snoc:
  "fst (frames v (fs @ [(rms, now)])) = fst (monitor rms now (fst (frames v fs)))"
  by (induction fs arbitrary: v) (auto simp: case_prod_beta)

lemma after_frames_take_Suc:
  "n < length fs \<Longrightarrow>
   after_frames (take (Suc n) fs) = fst (monitor (fst (fs ! n)) (snd (fs ! n)) (after_frames (take n fs)))"
  by (simp add: after_frames_def take_Suc_conv_app_nth frames_snoc[of _ _ "fst (fs ! n)" "snd (fs ! n)", simplified])

lemma enabled_after: "enabled (after_frames fs)"
proof (induction fs rule: rev_induct)
  case Nil
  then show ?case by (simp add: after_frames_def vad_start_def)
next
  case (snoc f fs)
  obtain rms now where f: "f = (rms, now)" by (cases f)
  from snoc show ?case
    by (simp add: after_frames_def f frames_snoc monitor_def)
qed

lemma timer_ok_after: "timer_ok fs (after_frames fs)"
proof (induction fs rule: rev_induct)
  case Nil
  then show ?case by (simp add: timer_ok_def after_frames_def vad_start_def)
next
  case (snoc f fs)
  obtain rms now where f: "f = (rms, now)" by (cases f)
  define v where "v = after_frames fs"
  have st: "after_frames (fs @ [f]) = fst (monitor rms now v)"
    by (simp add: after_frames_def f frames_snoc v_def)
  have en: "enabled v" unfolding v_def by (rule enabled_after)
  have ih: "timer_ok fs v" using snoc unfolding v_def .
  show ?case
  proof (cases "silenceStart (fst (monitor rms now v)) = 0")
    case True
    then show ?thesis by (simp add: timer_ok_def st)
  next
    case nz: False
    have notsp: "\<not> rms > SPEECH_THRESHOLD"
      using nz en by (auto simp: monitor_def split: if_splits)
    show ?thesis
    proof (cases "silenceStart v = 0")
      case True
      with nz en notsp have c: "rms < SILENCE_THRESHOLD" "speechDetected v"
        "fst (monitor rms now v) = v\<lparr>silenceStart := now\<rparr>"
        by (auto simp: monitor_def split: if_splits)
      have "\<exists>m < length (fs @ [f]). fst ((fs @ [f]) ! m) < SILENCE_THRESHOLD \<and>
              snd ((fs @ [f]) ! m) = now \<and>
              (\<forall>j. m \<le> j \<and> j < length (fs @ [f]) \<longrightarrow> fst ((fs @ [f]) ! j) \<le> SPEECH_THRESHOLD)"
      proof (intro exI[of _ "length fs"] conjI allI impI)
        fix j assume "length fs \<le> j \<and> j < length (fs @ [f])"
        then have "j = length fs" by simp
        then show "fst ((fs @ [f]) ! j) \<le> SPEECH_THRESHOLD" using notsp f by simp
      qed (use c f in simp_all)
      with c show ?thesis by (simp add: timer_ok_def st)
    next
      case False
      with nz en notsp have same: "silenceStart (fst (monitor rms now v)) = silenceStart v"
        "speechDetected (fst (monitor rms now v))"
        using ih by (auto simp: monitor_def timer_ok_def split: if_splits)
      from ih False obtain m where m: "m < length fs" "fst (fs ! m) < SILENCE_THRESHOLD"
        "snd (fs ! m) = silenceStart v"
        "\<forall>j. m \<le> j \<and> j < length fs \<longrightarrow> fst (fs ! j) \<le> SPEECH_THRESHOLD"
        unfolding timer_ok_def by blast
      have "\<exists>m < length (fs @ [f]). fst ((fs @ [f]) ! m) < SILENCE_THRESHOLD \<and>
              snd ((fs @ [f]) ! m) = silenceStart v \<and>
              (\<forall>j. m \<le> j \<and> j < length (fs @ [f]) \<longrightarrow> fst ((fs @ [f]) ! j) \<le> SPEECH_THRESHOLD)"
      proof (intro exI[of _ m] conjI allI impI)
        fix j assume j: "m \<le> j \<and> j < length (fs @ [f])"
        show "fst ((fs @ [f]) ! j) \<le> SPEECH_THRESHOLD"
        proof (cases "j < length fs")
          case True
          with m(4) j show ?thesis by (simp add: nth_append)
        next
          case False
          with j have "j = length fs" by simp
          then show ?thesis using notsp f by simp
        qed
      qed (use m in \<open>simp_all add: nth_append\<close>)
      with same show ?thesis by (simp add: timer_ok_def st)
    qed
  qed
qed

lemma monitor_enter:
  "enabled v \<Longrightarrow> \<not> speechDetected v \<Longrightarrow>
   speechDetected (fst (monitor rms now v)) \<longleftrightarrow> rms > SPEECH_THRESHOLD"
  by (simp add: monitor_def)

lemma monitor_exit:
  assumes "enabled v" and "speechDetected v" and "\<not> speechDetected (fst (monitor rms now v))"
  shows "rms < SILENCE_THRESHOLD \<and> \<not> rms > SPEECH_THRESHOLD \<and> silenceStart v \<noteq> 0 \<and>
         now - silenceStart v > SILENCE_DURATION"
  using assms by (auto simp: monitor_def split: if_splits)

lemma monitor_callbacks:
  "enabled v \<Longrightarrow>
   snd (monitor rms now v) =
     (if \<not> speechDetected v \<and> speechDetected (fst (monitor rms now v)) then [OnSpeechStart]
      else if speechDetected v \<and> \<not> speechDetected (fst (monitor rms now v)) then [OnSpeechEnd]
      else [])"
  by (simp add: monitor_def)

lemma vad_enter_exit:
  assumes "n < length fs"
  shows "(\<not> speechDetected (after_frames (take n fs)) \<longrightarrow>
            (speechDetected (after_frames (take (Suc n) fs)) \<longleftrightarrow> fst (fs ! n) > SPEECH_THRESHOLD)) \<and>
         (speechDetected (after_frames (take n fs)) \<and>
          \<not> speechDetected (after_frames (take (Suc n) fs)) \<longrightarrow>
            fst (fs ! n) < SILENCE_THRESHOLD \<and>
            (\<exists>m<n. fst (fs ! m) < SILENCE_THRESHOLD \<and>
                    snd (fs ! n) - snd (fs ! m) > SILENCE_DURATION \<and>
                    (\<forall>j. m \<le> j \<and> j \<le> n \<longrightarrow> fst (fs ! j) \<le> SPEECH_THRESHOLD))) \<and>
         snd (monitor (fst (fs ! n)) (snd (fs ! n)) (after_frames (take n fs))) =
           (if \<not> speechDetected (after_frames (take n fs)) \<and>
               speechDetected (after_frames (take (Suc n) fs)) then [OnSpeechStart]
            else if speechDetected (after_frames (take n fs)) \<and>
               \<not> speechDetected (after_frames (take (Suc n) fs)) then [OnSpeechEnd]
            else [])"
proof -
  define v where "v = after_frames (take n fs)"
  define rms where "rms = fst (fs ! n)"
  define now where "now = snd (fs ! n)"
  have nx: "after_frames (take (Suc n) fs) = fst (monitor rms now v)"
    using after_frames_take_Suc[OF assms] by (simp add: v_def rms_def now_def)
  have en: "enabled v" unfolding v_def by (rule enabled_after)
  have a: "\<not> speechDetected v \<longrightarrow>
            (speechDetected (fst (monitor rms now v)) \<longleftrightarrow> rms > SPEECH_THRESHOLD)"
    using monitor_enter[OF en] by blast
  have b: "speechDetected v \<and> \<not> speechDetected (fst (monitor rms now v)) \<longrightarrow>
            rms < SILENCE_THRESHOLD \<and>
            (\<exists>m<n. fst (fs ! m) < SILENCE_THRESHOLD \<and>
                    now - snd (fs ! m) > SILENCE_DURATION \<and>
                    (\<forall>j. m \<le> j \<and> j \<le> n \<longrightarrow> fst (fs ! j) \<le> SPEECH_THRESHOLD))"
  proof
    assume h: "speechDetected v \<and> \<not> speechDetected (fst (monitor rms now v))"
    from monitor_exit[OF en] h have x: "rms < SILENCE_THRESHOLD" "\<not> rms > SPEECH_THRESHOLD"
      "silenceStart v \<noteq> 0" "now - silenceStart v > SILENCE_DURATION"
      by blast+
    have "timer_ok (take n fs) v" unfolding v_def by (rule timer_ok_after)
    with x(3) obtain m where m: "m < length (take n fs)"
      "fst (take n fs ! m) < SILENCE_THRESHOLD" "snd (take n fs ! m) = silenceStart v"
      "\<forall>j. m \<le> j \<and> j < length (take n fs) \<longrightarrow> fst (take n fs ! j) \<le> SPEECH_THRESHOLD"
      unfolding timer_ok_def by blast
    have mn: "m < n" using m(1) by simp
    have "\<forall>j. m \<le> j \<and> j \<le> n \<longrightarrow> fst (fs ! j) \<le> SPEECH_THRESHOLD"
    proof (intro allI impI)
      fix j assume j: "m \<le> j \<and> j \<le> n"
      show "fst (fs ! j) \<le> SPEECH_THRESHOLD"
      proof (cases "j = n")
        case True
        with x(2) show ?thesis by (simp add: rms_def)
      next
        case False
        with j have jn: "j < n" by simp
        with m(4) j assms have "fst (take n fs ! j) \<le> SPEECH_THRESHOLD" by simp
        with jn show ?thesis by simp
      qed
    qed
    moreover have "fst (fs ! m) < SILENCE_THRESHOLD" using m(2) mn by simp
    moreover have "now - snd (fs ! m) > SILENCE_DURATION" using m(3) mn x(4) by simp
    ultimately show "rms < SILENCE_THRESHOLD \<and>
            (\<exists>m<n. fst (fs ! m) < SILENCE_THRESHOLD \<and>
                    now - snd (fs ! m) > SILENCE_DURATION \<and>
                    (\<forall>j. m \<le> j \<and> j \<le> n \<longrightarrow> fst (fs ! j) \<le> SPEECH_THRESHOLD))"
      using x(1) mn by blast
  qed
  note c = monitor_callbacks[OF en, of rms now]
  show ?thesis unfolding nx v_def[symmetric] rms_def[symmetric] now_def[symmetric]
    by (intro conjI a b c)
qed

lemma monitor_band:
  "enabled v \<Longrightarrow> SILENCE_THRESHOLD \<le> rms \<Longrightarrow> rms \<le> SPEECH_THRESHOLD \<Longrightarrow>
   monitor rms now v = (v, [])"
  by (simp add: monitor_def)

lemma monitor_exit_iff:
  "enabled v \<Longrightarrow>
   (speechDetected v \<and> \<not> speechDetected (fst (monitor rms now v))) \<longleftrightarrow>
   (speechDetected v \<and> rms < SILENCE_THRESHOLD \<and> silenceStart v \<noteq> 0 \<and>
    now - silenceStart v > SILENCE_DURATION)"
  by (auto simp: monitor_def SPEECH_THRESHOLD_def SILENCE_THRESHOLD_def split: if_splits)

lemma monitor_timer_kept:
  "enabled v \<Longrightarrow> silenceStart v \<noteq> 0 \<Longrightarrow> \<not> rms > SPEECH_THRESHOLD \<Longrightarrow>
   speechDetected (fst (monitor rms now v)) \<Longrightarrow>
   silenceStart (fst (monitor rms now v)) = silenceStart v"
  by (auto simp: monitor_def split: if_splits)

lemma monitor_timer_set:
  "enabled v \<Longrightarrow> speechDetected v \<Longrightarrow> silenceStart v = 0 \<Longrightarrow> rms < SILENCE_THRESHOLD \<Longrightarrow>
   fst (monitor rms now v) = v\<lparr> silenceStart := now \<rparr>"
  by (auto simp: monitor_def SPEECH_THRESHOLD_def SILENCE_THRESHOLD_def)

lemma band_frames_idle:
  assumes "a + k \<le> length fs"
    and "\<forall>j. a \<le> j \<and> j < a + k \<longrightarrow>
           SILENCE_THRESHOLD \<le> fst (fs ! j) \<and> fst (fs ! j) \<le> SPEECH_THRESHOLD"
  shows "after_frames (take (a + k) fs) = after_frames (take a fs)"
  using assms
proof (induction k)
  case 0
  then show ?case by simp
next
  case (Suc k)
  have lt: "a + k < length fs" using Suc.prems(1) by simp
  have ih: "after_frames (take (a + k) fs) = after_frames (take a fs)"
    using Suc.IH Suc.prems by simp
  have band: "SILENCE_THRESHOLD \<le> fst (fs ! (a + k)) \<and> fst (fs ! (a + k)) \<le> SPEECH_THRESHOLD"
    using Suc.prems(2) by simp
  have "after_frames (take (Suc (a + k)) fs) = after_frames (take (a + k) fs)"
    using after_frames_take_Suc[OF lt] monitor_band[OF enabled_after, of "fst (fs ! (a + k))"] band
    by simp
  with ih show ?case by simp
qed

lemma exit_after_band_frames:
  assumes "n < length fs" and "m < n"
    and "speechDetected (after_frames (take m fs))"
    and "silenceStart (after_frames (take m fs)) = 0"
    and "fst (fs ! m) < SILENCE_THRESHOLD" and "snd (fs ! m) \<noteq> 0"
    and "\<forall>j. m < j \<and> j < n \<longrightarrow>
           SILENCE_THRESHOLD \<le> fst (fs ! j) \<and> fst (fs ! j) \<le> SPEECH_THRESHOLD"
    and "fst (fs ! n) < SILENCE_THRESHOLD"
    and "snd (fs ! n) - snd (fs ! m) > SILENCE_DURATION"
  shows "speechDetected (after_frames (take n fs)) \<and>
         \<not> speechDetected (after_frames (take (Suc n) fs))"
proof -
  define v where "v = after_frames (take m fs)"
  have en: "enabled v" unfolding v_def by (rule enabled_after)
  have ml: "m < length fs" using assms(1,2) by simp
  have s1: "after_frames (take (Suc m) fs) = v\<lparr> silenceStart := snd (fs ! m) \<rparr>"
    using after_frames_take_Suc[OF ml] monitor_timer_set[OF en, of "fst (fs ! m)" "snd (fs ! m)"]
      assms(3,4,5)
    by (simp add: v_def)
  obtain k where k: "n = Suc m + k" using assms(2) by (metis less_iff_Suc_add add_Suc)
  have "after_frames (take (Suc m + k) fs) = after_frames (take (Suc m) fs)"
  proof (rule band_frames_idle)
    show "Suc m + k \<le> length fs" using assms(1) k by simp
    show "\<forall>j. Suc m \<le> j \<and> j < Suc m + k \<longrightarrow>
           SILENCE_THRESHOLD \<le> fst (fs ! j) \<and> fst (fs ! j) \<le> SPEECH_THRESHOLD"
      using assms(7) k by simp
  qed
  then have sn: "after_frames (take n fs) = v\<lparr> silenceStart := snd (fs ! m) \<rparr>"
    using s1 k by simp
  have en': "enabled (v\<lparr> silenceStart := snd (fs ! m) \<rparr>)" using en by simp
  have "speechDetected (v\<lparr> silenceStart := snd (fs ! m) \<rparr>) \<and>
        \<not> speechDetected (fst (monitor (fst (fs ! n)) (snd (fs ! n)) (v\<lparr> silenceStart := snd (fs ! m) \<rparr>)))"
    unfolding monitor_exit_iff[OF en'] using assms(3,6,8,9) by (simp add: v_def)
  then show ?thesis using after_frames_take_Suc[OF assms(1)] sn by simp
qed

text \<open>
  Claim C8, as amended. For every trace of frames and every frame \<open>n\<close> of it: a detector
  that is not in speech enters speech at frame \<open>n\<close> exactly when the frame's RMS energy
  exceeds the upper threshold. If it leaves speech at frame \<open>n\<close>, then that frame is below
  the lower threshold, and there is an earlier frame \<open>m\<close> below the lower threshold, more
  than \<open>SILENCE_DURATION\<close> milliseconds before frame \<open>n\<close>, such that no frame from \<open>m\<close> to
  \<open>n\<close> exceeds the upper threshold. The frame invokes \<open>onSpeechStart\<close> exactly on entering
  and \<open>onSpeechEnd\<close> exactly on leaving. A frame between the two thresholds (at least the
  lower, at most the upper) leaves the whole state of the detector as it is, the silence
  timer included. The detector leaves speech at frame \<open>n\<close> exactly when it is in speech,
  the timer runs, the frame is below the lower threshold and comes more than
  \<open>SILENCE_DURATION\<close> after the timer's start; a running timer keeps its start unless the
  frame exceeds the upper threshold or the detector leaves speech. So frames between the
  thresholds do not prevent the exit: when frame \<open>m\<close> starts the timer, all frames between
  \<open>m\<close> and \<open>n\<close> lie between the thresholds, and frame \<open>n\<close> is below the lower threshold
  more than \<open>SILENCE_DURATION\<close> after frame \<open>m\<close>, the detector leaves speech at frame \<open>n\<close>.
\<close>

theorem vad_hysteresis:
  assumes "n < length fs"
  shows "(\<not> speechDetected (after_frames (take n fs)) \<longrightarrow>
            (speechDetected (after_frames (take (Suc n) fs)) \<longleftrightarrow> fst (fs ! n) > SPEECH_THRESHOLD)) \<and>
         (speechDetected (after_frames (take n fs)) \<and>
          \<not> speechDetected (after_frames (take (Suc n) fs)) \<longrightarrow>
            fst (fs ! n) < SILENCE_THRESHOLD \<and>
            (\<exists>m<n. fst (fs ! m) < SILENCE_THRESHOLD \<and>
                    snd (fs ! n) - snd (fs ! m) > SILENCE_DURATION \<and>
                    (\<forall>j. m \<le> j \<and> j \<le> n \<longrightarrow> fst (fs ! j) \<le> SPEECH_THRESHOLD))) \<and>
         snd (monitor (fst (fs ! n)) (snd (fs ! n)) (after_frames (take n fs))) =
           (if \<not> speechDetected (after_frames (take n fs)) \<and>
               speechDetected (after_frames (take (Suc n) fs)) then [OnSpeechStart]
            else if speechDetected (after_frames (take n fs)) \<and>
               \<not> speechDetected (after_frames (take (Suc n) fs)) then [OnSpeechEnd]
            else []) \<and>
         (SILENCE_THRESHOLD \<le> fst (fs ! n) \<and> fst (fs ! n) \<le> SPEECH_THRESHOLD \<longrightarrow>
            after_frames (take (Suc n) fs) = after_frames (take n fs)) \<and>
         ((speechDetected (after_frames (take n fs)) \<and>
           \<not> speechDetected (after_frames (take (Suc n) fs))) \<longleftrightarrow>
          (speechDetected (after_frames (take n fs)) \<and> fst (fs ! n) < SILENCE_THRESHOLD \<and>
           silenceStart (after_frames (take n fs)) \<noteq> 0 \<and>
           snd (fs ! n) - silenceStart (after_frames (take n fs)) > SILENCE_DURATION)) \<and>
         (silenceStart (after_frames (take n fs)) \<noteq> 0 \<and> \<not> fst (fs ! n) > SPEECH_THRESHOLD \<and>
          speechDetected (after_frames (take (Suc n) fs)) \<longrightarrow>
            silenceStart (after_frames (take (Suc n) fs)) = silenceStart (after_frames (take n fs))) \<and>
         (\<forall>m<n. speechDetected (after_frames (take m fs)) \<and>
                 silenceStart (after_frames (take m fs)) = 0 \<and>
                 fst (fs ! m) < SILENCE_THRESHOLD \<and> snd (fs ! m) \<noteq> 0 \<and>
                 (\<forall>j. m < j \<and> j < n \<longrightarrow>
                    SILENCE_THRESHOLD \<le> fst (fs ! j) \<and> fst (fs ! j) \<le> SPEECH_THRESHOLD) \<and>
                 fst (fs ! n) < SILENCE_THRESHOLD \<and>
                 snd (fs ! n) - snd (fs ! m) > SILENCE_DURATION \<longrightarrow>
               speechDetected (after_frames (take n fs)) \<and>
               \<not> speechDetected (after_frames (take (Suc n) fs)))"
proof -
  define v where "v = after_frames (take n fs)"
  have nx: "after_frames (take (Suc n) fs) = fst (monitor (fst (fs ! n)) (snd (fs ! n)) v)"
    using after_frames_take_Suc[OF assms] by (simp add: v_def)
  have en: "enabled v" unfolding v_def by (rule enabled_after)
  note old = vad_enter_exit[OF assms]
  have d: "SILENCE_THRESHOLD \<le> fst (fs ! n) \<and> fst (fs ! n) \<le> SPEECH_THRESHOLD \<longrightarrow>
            after_frames (take (Suc n) fs) = after_frames (take n fs)"
    unfolding nx using monitor_band[OF en, of "fst (fs ! n)" "snd (fs ! n)"] by (simp add: v_def)
  have e: "(speechDetected (after_frames (take n fs)) \<and>
           \<not> speechDetected (after_frames (take (Suc n) fs))) \<longleftrightarrow>
          (speechDetected (after_frames (take n fs)) \<and> fst (fs ! n) < SILENCE_THRESHOLD \<and>
           silenceStart (after_frames (take n fs)) \<noteq> 0 \<and>
           snd (fs ! n) - silenceStart (after_frames (take n fs)) > SILENCE_DURATION)"
    unfolding nx v_def[symmetric] by (rule monitor_exit_iff[OF en])
  have f: "silenceStart (after_frames (take n fs)) \<noteq> 0 \<and> \<not> fst (fs ! n) > SPEECH_THRESHOLD \<and>
          speechDetected (after_frames (take (Suc n) fs)) \<longrightarrow>
            silenceStart (after_frames (take (Suc n) fs)) = silenceStart (after_frames (take n fs))"
    unfolding nx v_def[symmetric] using monitor_timer_kept[OF en] by blast
  have g: "\<forall>m<n. speechDetected (after_frames (take m fs)) \<and>
                 silenceStart (after_frames (take m fs)) = 0 \<and>
                 fst (fs ! m) < SILENCE_THRESHOLD \<and> snd (fs ! m) \<noteq> 0 \<and>
                 (\<forall>j. m < j \<and> j < n \<longrightarrow>
                    SILENCE_THRESHOLD \<le> fst (fs ! j) \<and> fst (fs ! j) \<le> SPEECH_THRESHOLD) \<and>
                 fst (fs ! n) < SILENCE_THRESHOLD \<and>
                 snd (fs ! n) - snd (fs ! m) > SILENCE_DURATION \<longrightarrow>
               speechDetected (after_frames (take n fs)) \<and>
               \<not> speechDetected (after_frames (take (Suc n) fs))"
    using exit_after_band_frames[OF assms] by blast
  show ?thesis
    by (intro conjI old[THEN conjunct1] old[THEN conjunct2, THEN conjunct1]
          old[THEN conjunct2, THEN conjunct2] d e f g)
qed

text \<open>
  Claim C8 as stated fails: the detector leaves speech at 3000 ms although the frame at
  2500 ms, inside the waiting window that began at 2000 ms, has energy 0.012, which is
  not below the lower threshold 0.009.
\<close>

theorem vad_exit_despite_loud_sample:
  "snd (frames vad_start [(0.02, 1000), (0.005, 2000), (0.012, 2500), (0.005, 3000)]) =
     [OnSpeechStart, OnSpeechEnd] \<and>
   \<not> (0.012 < SILENCE_THRESHOLD)"
  by code_simp

text \<open>
  The theorem on \<open>vad_trace\<close>: frame 1 starts the timer, frame 2 lies between the
  thresholds and changes nothing, and the detector leaves speech at frame 3.
\<close>

theorem vad_hysteresis_witness:
  "speechDetected (after_frames (take 3 vad_trace)) \<and>
   \<not> speechDetected (after_frames (take (Suc 3) vad_trace)) \<and>
   after_frames (take (Suc 2) vad_trace) = after_frames (take 2 vad_trace)"
proof -
  have l3: "3 < length vad_trace" and l2: "2 < length vad_trace"
    by (simp_all add: vad_trace_def)
  have p1: "speechDetected (after_frames (take 1 vad_trace))" by code_simp
  have p2: "silenceStart (after_frames (take 1 vad_trace)) = 0" by code_simp
  have p3: "fst (vad_trace ! 1) < SILENCE_THRESHOLD" by code_simp
  have p4: "snd (vad_trace ! 1) \<noteq> 0" by code_simp
  have b2: "SILENCE_THRESHOLD \<le> fst (vad_trace ! 2) \<and> fst (vad_trace ! 2) \<le> SPEECH_THRESHOLD"
    by code_simp
  have p5: "\<forall>j. 1 < j \<and> j < 3 \<longrightarrow>
      SILENCE_THRESHOLD \<le> fst (vad_trace ! j) \<and> fst (vad_trace ! j) \<le> SPEECH_THRESHOLD"
  proof (intro allI impI)
    fix j :: nat assume "1 < j \<and> j < 3"
    then have "j = 2" by simp
    with b2 show "SILENCE_THRESHOLD \<le> fst (vad_trace ! j) \<and> fst (vad_trace ! j) \<le> SPEECH_THRESHOLD"
      by simp
  qed
  have p6: "fst (vad_trace ! 3) < SILENCE_THRESHOLD" by code_simp
  have p7: "snd (vad_trace ! 3) - snd (vad_trace ! 1) > SILENCE_DURATION" by code_simp
  have m: "(1::nat) < 3" by simp
  note exit = vad_hysteresis[OF l3, THEN conjunct2, THEN conjunct2, THEN conjunct2,
      THEN conjunct2, THEN conjunct2, THEN conjunct2, rule_format, OF m]
  note band = vad_hysteresis[OF l2, THEN conjunct2, THEN conjunct2, THEN conjunct2,
      THEN conjunct1, rule_format, OF b2]
  from exit p1 p2 p3 p4 p5 p6 p7 band show ?thesis by blast
qed

section \<open>The conversation history: properties\<close>

lemma push_user_length: "length (push_user u h) \<le> MAX_HISTORY"
  by (auto simp: push_user_def slice_last_def Let_def MAX_HISTORY_def)

lemma push_user_drop:
  "push_user u h = drop (length h + 1 - MAX_HISTORY) (h @ [\<lparr> role = User, content = u \<rparr>])"
  by (simp add: push_user_def slice_last_def Let_def)

lemma push_user_length_eq: "length (push_user u h) = min MAX_HISTORY (length h + 1)"
  by (simp add: push_user_drop)

lemma history_after_snoc: "history_after (ops @ [op]) = apply_op (history_after ops) op"
  by (simp add: history_after_def)

lemma history_after_length:
  "length (history_after ops) \<le> MAX_HISTORY + trailing_assistants ops"
proof (induction ops rule: rev_induct)
  case Nil
  then show ?case by (simp add: history_after_def)
next
  case (snoc op ops)
  show ?case
  proof (cases op)
    case (PushUser u)
    then show ?thesis using push_user_length[of u "history_after ops"]
      by (simp add: history_after_snoc)
  next
    case (PushAssistant r)
    then show ?thesis using snoc.IH
      by (simp add: history_after_snoc push_assistant_def trailing_assistants_def)
  qed
qed

lemma conversation_ops: "conversation calls = history_after (concat (map ops_of_call calls))"
proof (induction calls rule: rev_induct)
  case Nil
  then show ?case by (simp add: conversation_def history_after_def)
next
  case (snoc c calls)
  obtain u r where c: "c = (u, r)" by (cases c)
  from snoc show ?case
    by (cases r) (simp_all add: c conversation_def history_after_def)
qed

lemma chatStream_length: "length (chatStream h c) \<le> MAX_HISTORY + 1"
proof -
  obtain u r where c: "c = (u, r)" by (cases c)
  show ?thesis using push_user_length[of u h] by (cases r) (simp_all add: c push_assistant_def)
qed

text \<open>
  Claim C9, as amended. After any sequence of the two operations on the history, it holds
  at most \<open>MAX_HISTORY\<close> turns plus the number of assistant turns appended since the last
  user turn. Appending a user turn to a history \<open>h\<close> gives exactly the last
  \<open>MAX_HISTORY\<close> entries of \<open>h\<close> with the new turn at its end: the oldest
  \<open>length h + 1 - MAX_HISTORY\<close> entries are dropped, and the length is the smaller of
  \<open>MAX_HISTORY\<close> and \<open>length h + 1\<close>. Appending an assistant turn lengthens the history by
  one and drops nothing. When the calls of \<open>chatStream\<close> run one after the other, which the
  later client enforces, the history is the one after the calls' operations in order, it
  holds at most \<open>MAX_HISTORY + 1\<close> turns after any number of calls, and the history sent
  with the next request holds at most \<open>MAX_HISTORY\<close>.
\<close>

theorem history_bound:
  "length (history_after ops) \<le> MAX_HISTORY + trailing_assistants ops \<and>
   push_user userText h =
     drop (length h + 1 - MAX_HISTORY) (h @ [\<lparr> role = User, content = userText \<rparr>]) \<and>
   length (push_user userText h) = min MAX_HISTORY (length h + 1) \<and>
   length (push_assistant fullResponse h) = length h + 1 \<and>
   conversation calls = history_after (concat (map ops_of_call calls)) \<and>
   length (conversation calls) \<le> MAX_HISTORY + 1 \<and>
   length (push_user userText (conversation calls)) \<le> MAX_HISTORY"
proof -
  have "length (conversation calls) \<le> MAX_HISTORY + 1"
  proof (cases calls rule: rev_cases)
    case Nil
    then show ?thesis by (simp add: conversation_def)
  next
    case (snoc cs c)
    then show ?thesis using chatStream_length by (simp add: conversation_def)
  qed
  then show ?thesis
    by (intro conjI history_after_length push_user_drop push_user_length_eq
          conversation_ops push_user_length) (simp_all add: push_assistant_def)
qed

text \<open>
  Claim C9 as stated fails: the assistant turn is appended without a cut, so after eleven
  completed calls that run one after the other the history holds 21 turns. When two calls
  overlap after ten completed ones (both user turns are pushed before either assistant
  turn, as the earlier client allows), it holds 22.
\<close>

theorem history_exceeds_cap:
  "length (conversation (replicate 11 (''hi'', Completed ''hello''))) = 21 \<and> 21 > MAX_HISTORY \<and>
   length (history_after (concat (replicate 10 [PushUser ''hi'', PushAssistant ''hello'']) @
      [PushUser ''one'', PushUser ''two'', PushAssistant ''first'', PushAssistant ''second''])) = 22"
  by code_simp

section \<open>The speech-synthesis route: properties\<close>

text \<open>
  Claim C10. When the body has no field \<open>text\<close>, or its \<open>text\<close> is a string that trims to
  the empty string, the handler replies with status 400 and the JSON body
  \<open>{"error": "No text provided"}\<close>, and nothing is sent upstream, whatever the upstream
  service would have answered.
\<close>

theorem tts_rejects_empty_text:
  assumes "text = Undefined \<or> (\<exists>s. text = String s \<and> trim s = [])"
  shows "tts_route text fetch = (JsonError 400 ''No text provided'', [])"
  using assms by (auto simp: tts_route_def)

text \<open>
  The theorem at a text of white space only and at a body without the field.
\<close>

theorem tts_rejects_empty_text_witness:
  "tts_route (String [CHR '' '', CHR 0x09, CHR 0x0A]) (\<lambda>s. Response True 200 ''mp3'') =
     (JsonError 400 ''No text provided'', []) \<and>
   tts_route Undefined (\<lambda>s. Response True 200 ''mp3'') = (JsonError 400 ''No text provided'', [])"
proof -
  have h: "trim [CHR '' '', CHR 0x09, CHR 0x0A] = []" by (simp add: trim_def is_space_def)
  have a: "String [CHR '' '', CHR 0x09, CHR 0x0A] = Undefined \<or>
     (\<exists>s. String [CHR '' '', CHR 0x09, CHR 0x0A] = String s \<and> trim s = [])"
    using h by simp
  have b: "Undefined = Undefined \<or> (\<exists>s. Undefined = String s \<and> trim s = [])" by simp
  show ?thesis
    using tts_rejects_empty_text[OF a] tts_rejects_empty_text[OF b] by simp
qed

section \<open>The controller: properties\<close>

text \<open>
  Claim C1 at the session \<open>barge\<close>. After it the controller is listening, at interaction
  version 2, with no current queue, and the request of version 1 for sentence 0 is still in
  flight. When that request completes, its callback moves the state machine to
  \<open>SPEAKING\<close> and starts the stale buffer on the queue of the turn that has ended.
\<close>

theorem stale_completion_fires_transition:
  "current (session barge) = LISTENING \<and>
   interactionVersion (session barge) = 2 \<and>
   inflight (session barge) = [(1, 0, 0)] \<and>
   currentQueue (session barge) = None \<and>
   current (session (barge @ [TtsDecoded 1 0 0 \<lparr>payload = 7, duration = 2\<rparr> 5])) = SPEAKING \<and>
   started (queues (session (barge @ [TtsDecoded 1 0 0 \<lparr>payload = 7, duration = 2\<rparr> 5])) ! 0) =
     [(\<lparr>payload = 7, duration = 2\<rparr>, 5.02)]"
  by code_simp

text \<open>
  The completion callback of sentence 0 moves to \<open>SPEAKING\<close> from every state of the
  controller, whatever the interaction version.
\<close>

lemma ttsCompletion_unguarded:
  "current (ttsCompletion q 0 buf now d) = SPEAKING"
  by (simp add: ttsCompletion_def transition_def)

text \<open>
  The callback on \<open>Promise.all(ttsPromises)\<close> works on what it has captured. In the
  session \<open>late_mark\<close> it runs during the second turn and marks the queue of the first
  turn as complete, with the sentence count of the first turn; the queue of the second
  turn is left as it is.
\<close>

lemma stale_settlement_marks_old_queue:
  "settling (session late_mark) = [(0, 0, [])] \<and>
   audioQueue (session late_mark) = Some 1 \<and>
   \<not> allEnqueued (queues (session late_mark) ! 0) \<and>
   allEnqueued (queues (session (late_mark @ [AllTtsSettled 0])) ! 0) \<and>
   totalExpected (queues (session (late_mark @ [AllTtsSettled 0])) ! 0) = 1 \<and>
   \<not> allEnqueued (queues (session (late_mark @ [AllTtsSettled 0])) ! 1) \<and>
   settling (session (late_mark @ [AllTtsSettled 0])) = []"
  by code_simp

end
